theory Spec2Isabelle
  imports Complex_Main "HOL-Library.Finite_Map" "HOL-Library.Word"
begin

section \<open>Data model\<close>

text \<open>
  A grayscale pixel is a \<open>uint8\<close>. A patch is a square block of pixels, stored row by
  row (\<open>patches.tolist()\<close>). Time stamps of \<open>datetime\<close> are counted in microseconds.
\<close>

type_synonym pixel = "8 word"
type_synonym patch = "pixel list list"
type_synonym image = "pixel list list"

text \<open>
  The per-session dictionary of \<open>sessions.py\<close>. The key
  \<open>current_shuffled_image_path\<close> is absent until the first shuffle; reading an absent
  key with \<open>.get\<close> gives \<open>None\<close>, so absence and \<open>None\<close> are one value here.
\<close>

record session =
  original_positions :: "nat list option"
  shuffled_positions :: "nat list option"
  patches :: "patch list option"
  current_level :: string
  current_image_name :: "string option"
  start_time :: "int option"
  current_shuffled_image_path :: "string option"

text \<open>The two module-level dictionaries \<open>game_sessions\<close> and \<open>session_timeouts\<close>.\<close>

record registry =
  game_sessions :: "(string, session) fmap"
  session_timeouts :: "(string, int) fmap"

definition SESSION_TIMEOUT_MINUTES :: int where
  "SESSION_TIMEOUT_MINUTES = 60"

definition timedelta_minutes :: "int \<Rightarrow> int" where
  "timedelta_minutes m = m * 60000000"

text \<open>What an endpoint answers when it does not succeed (the JSON error bodies).\<close>

datatype error =
    SessionExpired
  | InvalidSession
  | NoImageSelected
  | InvalidLevel
  | ImageNotInLevel
  | ImageNotFound
  | ShuffleFailed
  | FailedToCreateImage
  | NoPuzzleToSwap
  | InvalidIndices
  | SwapFailed
  | NoPuzzleToValidate
  | LevelDataNotFound
  | NoImagesInLevel
  | Unauthorized
  | GridSizeOutOfRange
  | CountdownOutOfRange
  | InvalidData
  | InvalidScoreLevel
  | FailedToSaveScore
  | InternalServerError

fun status_code :: "error \<Rightarrow> nat" where
  "status_code SessionExpired = 400"
| "status_code InvalidSession = 400"
| "status_code NoImageSelected = 400"
| "status_code InvalidLevel = 400"
| "status_code ImageNotInLevel = 400"
| "status_code ImageNotFound = 404"
| "status_code ShuffleFailed = 500"
| "status_code FailedToCreateImage = 500"
| "status_code NoPuzzleToSwap = 400"
| "status_code InvalidIndices = 400"
| "status_code SwapFailed = 500"
| "status_code NoPuzzleToValidate = 400"
| "status_code LevelDataNotFound = 404"
| "status_code NoImagesInLevel = 404"
| "status_code Unauthorized = 401"
| "status_code GridSizeOutOfRange = 400"
| "status_code CountdownOutOfRange = 400"
| "status_code InvalidData = 400"
| "status_code InvalidScoreLevel = 400"
| "status_code FailedToSaveScore = 500"
| "status_code InternalServerError = 500"

section \<open>Session registry (\<open>sessions.py\<close>)\<close>

definition new_session :: session where
  "new_session =
     \<lparr> original_positions = None,
       shuffled_positions = None,
       patches = None,
       current_level = ''level_1'',
       current_image_name = None,
       start_time = None,
       current_shuffled_image_path = None \<rparr>"

text \<open>
  \<open>get_or_create_session(session_id)\<close>. The clock reading \<open>now\<close> and the string
  \<open>uuid4\<close> that \<open>str(uuid.uuid4())\<close> would return are inputs. A token that is
  \<open>None\<close> or the empty string is falsy.
\<close>

definition get_or_create_session ::
  "string option \<Rightarrow> int \<Rightarrow> string \<Rightarrow> registry \<Rightarrow> string \<times> registry" where
  "get_or_create_session session_id now uuid4 reg =
     (let create =
            (uuid4,
             reg\<lparr> game_sessions := fmupd uuid4 new_session (game_sessions reg),
                  session_timeouts :=
                    fmupd uuid4 (now + timedelta_minutes SESSION_TIMEOUT_MINUTES)
                      (session_timeouts reg) \<rparr>)
      in case session_id of
           None \<Rightarrow> create
         | Some sid \<Rightarrow>
             if sid \<noteq> [] \<and> fmlookup (game_sessions reg) sid \<noteq> None
             then (sid,
                   reg\<lparr> session_timeouts :=
                          fmupd sid (now + timedelta_minutes SESSION_TIMEOUT_MINUTES)
                            (session_timeouts reg) \<rparr>)
             else create)"

definition get_session :: "string \<Rightarrow> registry \<Rightarrow> session option" where
  "get_session session_id reg = fmlookup (game_sessions reg) session_id"

text \<open>
  \<open>cleanup_expired_sessions()\<close>: the comprehension collects the keys of
  \<open>session_timeouts\<close> whose time stamp is before \<open>now\<close>; the loop pops each of them
  from both dictionaries.
\<close>

definition expired_sessions :: "int \<Rightarrow> registry \<Rightarrow> string fset" where
  "expired_sessions now reg =
     fmdom (fmfilter (\<lambda>sid. case fmlookup (session_timeouts reg) sid of
                               None \<Rightarrow> False
                             | Some timeout \<Rightarrow> timeout < now)
              (session_timeouts reg))"

definition cleanup_expired_sessions :: "int \<Rightarrow> registry \<Rightarrow> registry" where
  "cleanup_expired_sessions now reg =
     (let expired = expired_sessions now reg
      in reg\<lparr> game_sessions := fmdrop_fset expired (game_sessions reg),
              session_timeouts := fmdrop_fset expired (session_timeouts reg) \<rparr>)"

definition clear_session :: "string \<Rightarrow> registry \<Rightarrow> registry" where
  "clear_session session_id reg =
     reg\<lparr> game_sessions := fmdrop session_id (game_sessions reg),
          session_timeouts := fmdrop session_id (session_timeouts reg) \<rparr>"

text \<open>
  Every endpoint starts with
  \<open>if not session_id or session_id not in game_sessions\<close>; this is the lookup that
  passes that test.
\<close>

definition find_session :: "string option \<Rightarrow> registry \<Rightarrow> (string \<times> session) option" where
  "find_session session_id reg =
     (case session_id of
        None \<Rightarrow> None
      | Some sid \<Rightarrow>
          if sid = [] then None
          else (case fmlookup (game_sessions reg) sid of
                  None \<Rightarrow> None
                | Some s \<Rightarrow> Some (sid, s)))"

definition put_session :: "string \<Rightarrow> session \<Rightarrow> registry \<Rightarrow> registry" where
  "put_session sid s reg = reg\<lparr> game_sessions := fmupd sid s (game_sessions reg) \<rparr>"

section \<open>Validator (\<open>validate_puzzle\<close>)\<close>

definition validate_puzzle :: "string option \<Rightarrow> registry \<Rightarrow> error + bool" where
  "validate_puzzle session_id reg =
     (case find_session session_id reg of
        None \<Rightarrow> Inl InvalidSession
      | Some (sid, s) \<Rightarrow>
          (case (original_positions s, shuffled_positions s) of
             (Some orig, Some shuf) \<Rightarrow> Inr (shuf = orig)
           | _ \<Rightarrow> Inl NoPuzzleToValidate))"

section \<open>Configuration (\<open>config.py\<close>) and its admin endpoint\<close>

text \<open>
  The configuration file holds a JSON object; \<open>None\<close> stands for a file that does not
  exist. Only integer-valued entries are modelled.
\<close>

type_synonym config = "(string, int) fmap"

definition load_config :: "config option \<Rightarrow> config" where
  "load_config file =
     (case file of None \<Rightarrow> fmupd ''grid_size'' 4 fmempty | Some c \<Rightarrow> c)"

definition get_grid_size :: "config option \<Rightarrow> int" where
  "get_grid_size file =
     (case fmlookup (load_config file) ''grid_size'' of None \<Rightarrow> 4 | Some g \<Rightarrow> g)"

definition set_grid_size :: "int \<Rightarrow> config option \<Rightarrow> config option" where
  "set_grid_size sz file = Some (fmupd ''grid_size'' sz (load_config file))"

definition get_countdown_time :: "config option \<Rightarrow> int" where
  "get_countdown_time file =
     (case fmlookup (load_config file) ''countdown_time'' of None \<Rightarrow> 3 | Some t \<Rightarrow> t)"

definition set_countdown_time :: "int \<Rightarrow> config option \<Rightarrow> config option" where
  "set_countdown_time seconds file =
     Some (fmupd ''countdown_time'' seconds (load_config file))"

datatype config_message = GridSizeUpdated int | CountdownUpdated int

text \<open>
  \<open>update_config\<close> (\<open>POST /admin/config\<close>). \<open>ADMIN_PASSWORD\<close> comes from the
  environment and is an input. The grid size is written before the countdown time is
  looked at.
\<close>

definition update_config ::
  "int option \<Rightarrow> int option \<Rightarrow> string \<Rightarrow> string \<Rightarrow> config option \<Rightarrow>
     (error + config_message list) \<times> config option" where
  "update_config grid_size countdown_time password ADMIN_PASSWORD file =
     (if password \<noteq> ADMIN_PASSWORD then (Inl Unauthorized, file)
      else
        let bad_grid = (case grid_size of None \<Rightarrow> False | Some g \<Rightarrow> g < 2 \<or> g > 10) in
        if bad_grid then (Inl GridSizeOutOfRange, file)
        else
          let file1 = (case grid_size of None \<Rightarrow> file | Some g \<Rightarrow> set_grid_size g file);
              messages1 = (case grid_size of None \<Rightarrow> [] | Some g \<Rightarrow> [GridSizeUpdated g]);
              bad_countdown =
                (case countdown_time of None \<Rightarrow> False | Some t \<Rightarrow> t < 0 \<or> t > 60)
          in if bad_countdown then (Inl CountdownOutOfRange, file1)
             else
               (case countdown_time of
                  None \<Rightarrow> (Inr messages1, file1)
                | Some t \<Rightarrow>
                    (Inr (messages1 @ [CountdownUpdated t]), set_countdown_time t file1)))"

section \<open>Rendering a composed image\<close>

text \<open>\<open>str(n)\<close> for a non-negative integer, used in the names of rendered files.\<close>

fun str_nat :: "nat \<Rightarrow> string" where
  "str_nat n =
     (if n < 10 then [''0123456789'' ! n]
      else str_nat (n div 10) @ [''0123456789'' ! (n mod 10)])"

declare str_nat.simps [simp del]

text \<open>
  \<open>range(0, stop, step)\<close> for a step that is not zero (a zero step raises
  \<open>ValueError\<close>, which the callers test first).
\<close>

definition py_range :: "int \<Rightarrow> int \<Rightarrow> int list" where
  "py_range stop step =
     (if step > 0
      then map (\<lambda>k. int k * step) [0..<nat ((stop + step - 1) div step)]
      else map (\<lambda>k. int k * step) [0..<nat ((stop + step + 1) div step)])"

definition zeros :: "nat \<Rightarrow> nat \<Rightarrow> image" where
  "zeros h w = replicate h (replicate w 0)"

text \<open>
  The slice assignment \<open>img[i:i + p, j:j + p] = patch\<close> for a patch of shape
  \<open>(p, p)\<close>: the pixels of the block take the patch's values, every other pixel stays.
\<close>

definition set_block :: "nat \<Rightarrow> nat \<Rightarrow> nat \<Rightarrow> patch \<Rightarrow> image \<Rightarrow> image" where
  "set_block i j p patch img =
     map (\<lambda>(y, row).
            if i \<le> y \<and> y < i + p
            then map (\<lambda>(x, v). if j \<le> x \<and> x < j + p then patch ! (y - i) ! (x - j) else v)
                   (enumerate 0 row)
            else row)
       (enumerate 0 img)"

text \<open>
  \<open>np.array(patches_list)\<close> builds a three-dimensional array only from a nested list
  whose patches all have the same number of rows and whose rows all have the same
  length; a ragged list raises \<open>ValueError\<close>. The shape of one patch of that array is
  \<open>(rows, columns)\<close>, or \<open>(0,)\<close> when the patches have no rows.
\<close>

definition np_array_ok :: "patch list \<Rightarrow> bool" where
  "np_array_ok ps =
     (ps = [] \<or>
      list_all (\<lambda>p. length p = length (hd ps)) ps \<and>
      (hd ps = [] \<or>
       list_all (\<lambda>p. list_all (\<lambda>row. length row = length (hd (hd ps))) p) ps))"

definition patch_shape :: "patch \<Rightarrow> int list" where
  "patch_shape p = (if p = [] then [0] else [int (length p), int (length (hd p))])"

datatype py_exception = IndexError | ValueError | ZeroDivisionError

text \<open>
  The two nested loops that rebuild the image, flattened to the list of the block
  corners \<open>(i, j)\<close> in the order the loops visit them, with the running counter
  \<open>index\<close>. The swap endpoint checks the shape of each patch before it writes it
  (\<open>check_shape\<close>); the shuffle endpoint does not.
\<close>

fun paste_loop ::
  "bool \<Rightarrow> int \<Rightarrow> patch list \<Rightarrow> nat list \<Rightarrow> (int \<times> int) list \<Rightarrow> nat \<Rightarrow> image \<Rightarrow>
     py_exception + image" where
  "paste_loop check_shape patch_size ps positions [] index img = Inr img"
| "paste_loop check_shape patch_size ps positions ((i, j) # rest) index img =
     (if index \<ge> length positions then Inl IndexError
      else if positions ! index \<ge> length ps then Inl IndexError
      else
        let patch = ps ! (positions ! index) in
        if check_shape \<and> patch_shape patch \<noteq> [patch_size, patch_size] then Inl ValueError
        else paste_loop check_shape patch_size ps positions rest (index + 1)
               (set_block (nat i) (nat j) (nat patch_size) patch img))"

definition block_corners :: "int \<Rightarrow> int \<Rightarrow> (int \<times> int) list" where
  "block_corners stop step = List.product (py_range stop step) (py_range stop step)"

section \<open>Swap engine (\<open>swap_patches\<close>)\<close>

text \<open>
  The tuple assignment \<open>xs[i], xs[j] = xs[j], xs[i]\<close>: both right-hand values are read
  first, then \<open>xs[i]\<close> and \<open>xs[j]\<close> are written in this order.
\<close>

definition exchange :: "nat \<Rightarrow> nat \<Rightarrow> 'a list \<Rightarrow> 'a list" where
  "exchange i j xs = (xs[i := xs ! j])[j := xs ! i]"

definition temp_name :: "string \<Rightarrow> string \<Rightarrow> string \<Rightarrow> nat \<Rightarrow> string" where
  "temp_name kind sid level timestamp =
     kind @ ''_'' @ take 8 sid @ ''_'' @ level @ ''_'' @ str_nat timestamp @ ''.jpg''"

text \<open>
  \<open>swap_patches\<close> (\<open>POST /swap\<close>). Inputs besides the form fields and the header: the
  grid size now in the configuration, the millisecond clock used in the file name, and
  whether the file exists after \<open>Image.save\<close>. The answer on success is the URL
  together with the image that was written. Every exception raised inside the
  \<open>try\<close> block is answered with status 500; what was written to the session before the
  exception stays written.
\<close>

definition swap_patches ::
  "int \<Rightarrow> int \<Rightarrow> string option \<Rightarrow> int \<Rightarrow> nat \<Rightarrow> bool \<Rightarrow> registry \<Rightarrow>
     (error + string \<times> image) \<times> registry" where
  "swap_patches index1 index2 session_id grid_size timestamp file_created reg =
     (case find_session session_id reg of
        None \<Rightarrow> (Inl InvalidSession, reg)
      | Some (sid, s) \<Rightarrow>
          (case (shuffled_positions s, patches s) of
             (Some positions, Some patches_list) \<Rightarrow>
               if \<not> np_array_ok patches_list then (Inl SwapFailed, reg)
               else if grid_size = 0 then (Inl SwapFailed, reg)
               else
                 let patch_size = 512 div grid_size;
                     total_patches = int (length positions)
                 in if index1 < 0 \<or> index2 < 0 \<or> index1 \<ge> total_patches \<or> index2 \<ge> total_patches
                    then (Inl InvalidIndices, reg)
                    else
                      let positions' = exchange (nat index1) (nat index2) positions;
                          s1 = s\<lparr> shuffled_positions := Some positions' \<rparr>;
                          reg1 = put_session sid s1 reg;
                          target_size = patch_size * grid_size
                      in if patch_size = 0 then (Inl SwapFailed, reg1)
                         else
                           (case paste_loop True patch_size patches_list positions'
                                   (block_corners target_size patch_size) 0
                                   (zeros (nat target_size) (nat target_size)) of
                              Inl e \<Rightarrow> (Inl SwapFailed, reg1)
                            | Inr updated_image \<Rightarrow>
                                if \<not> file_created then (Inl FailedToCreateImage, reg1)
                                else
                                  let name = temp_name ''updated'' sid (current_level s1) timestamp
                                  in (Inr (''/static/images/temp/'' @ name, updated_image),
                                      put_session sid
                                        (s1\<lparr> current_shuffled_image_path :=
                                                Some (''app/static/images/temp/'' @ name) \<rparr>)
                                        reg1))
           | _ \<Rightarrow> (Inl NoPuzzleToSwap, reg)))"

section \<open>Level progression (\<open>next_level\<close>)\<close>

text \<open>
  The level catalog \<open>image_metadata\<close> is a JSON object read in file order: an
  association list from level names to the images of the level, each with its
  metadata. \<open>index_of\<close> is \<open>list.index\<close> for an element that occurs in the list.
\<close>

record question =
  question_text :: string
  options :: "string list"
  answer :: string

record metadata =
  organ :: string
  modality :: string
  questions :: "question list"

type_synonym catalog = "(string \<times> (string \<times> metadata) list) list"

fun index_of :: "'a list \<Rightarrow> 'a \<Rightarrow> nat" where
  "index_of [] x = 0"
| "index_of (y # ys) x = (if x = y then 0 else Suc (index_of ys x))"

datatype level_answer = LevelAnswer (answer_message: string) (answer_level: "string option")

definition next_level ::
  "string option \<Rightarrow> catalog \<Rightarrow> registry \<Rightarrow> (error + level_answer) \<times> registry" where
  "next_level session_id image_metadata reg =
     (case find_session session_id reg of
        None \<Rightarrow> (Inl InvalidSession, reg)
      | Some (sid, s) \<Rightarrow>
          let levels = map fst image_metadata;
              current_index =
                (if current_level s \<in> set levels then int (index_of levels (current_level s))
                 else - 1)
          in if current_index < int (length levels) - 1
             then
               let s' = s\<lparr> current_level := levels ! nat (current_index + 1),
                           current_image_name := None,
                           patches := None,
                           shuffled_positions := None,
                           original_positions := None,
                           start_time := None,
                           current_shuffled_image_path := None \<rparr>
               in (Inr (LevelAnswer ''Progressed to the next level'' (Some (current_level s'))),
                   put_session sid s' reg)
             else (Inr (LevelAnswer ''You have completed all levels!'' None), reg))"

section \<open>Tile partitioner and shuffle generator (\<open>shuffle_image\<close>)\<close>

text \<open>
  An image file as \<open>PIL\<close> sees it: its own width and height, and what
  \<open>Image.open(path).resize((t, t)).convert("L")\<close> holds at row \<open>r\<close> and column
  \<open>c\<close>, for each target edge \<open>t\<close>. The resampling filter is the library's; the
  array \<open>np.array(img)\<close> built from it has shape \<open>(t, t)\<close>.
\<close>

record source_image =
  src_width :: nat
  src_height :: nat
  resized_L :: "nat \<Rightarrow> nat \<Rightarrow> nat \<Rightarrow> pixel"

definition img_array :: "source_image \<Rightarrow> nat \<Rightarrow> image" where
  "img_array src t = map (\<lambda>r. map (\<lambda>c. resized_L src t r c) [0..<t]) [0..<t]"

definition image_path :: "string \<Rightarrow> string \<Rightarrow> string" where
  "image_path level name = ''app/static/images/'' @ level @ ''/'' @ name"

text \<open>
  \<open>img_array.reshape(h // p, p, -1, p).swapaxes(1, 2).reshape(-1, p, p)\<close> on the
  row-major data of the array. The dimension written \<open>-1\<close> is inferred from the number
  of elements, which the other dimensions must divide; otherwise \<open>reshape\<close> raises
  \<open>ValueError\<close>. Element \<open>[a][r][b][c]\<close> of the four-dimensional view is element
  \<open>((a * p + r) * C + b) * p + c\<close> of the flat data, and patch \<open>k\<close> of the result is
  the block \<open>a = k div C\<close>, \<open>b = k mod C\<close>.
\<close>

definition extract_patches :: "nat \<Rightarrow> image \<Rightarrow> py_exception + patch list" where
  "extract_patches p img =
     (let h = length img;
          flat = concat img;
          R = h div p;
          unit = R * p * p
      in if unit = 0 \<or> length flat mod unit \<noteq> 0 then Inl ValueError
         else
           let C = length flat div unit
           in Inr (map (\<lambda>k. map (\<lambda>r. map (\<lambda>c. flat ! ((((k div C) * p + r) * C + k mod C) * p + c))
                                      [0..<p])
                            [0..<p])
                     [0..<R * C]))"

text \<open>
  \<open>random.shuffle(x)\<close> of the standard library:
  \<^verbatim>\<open>for i in reversed(range(1, len(x))): j = randbelow(i + 1); x[i], x[j] = x[j], x[i]\<close>.
  The generator is an input: \<open>randbelow n\<close> is the draw made for the bound \<open>n\<close>,
  reduced into \<open>[0, n)\<close> where the library's draw already lies.
\<close>

fun shuffle_loop :: "(nat \<Rightarrow> nat) \<Rightarrow> nat \<Rightarrow> 'a list \<Rightarrow> 'a list" where
  "shuffle_loop randbelow 0 x = x"
| "shuffle_loop randbelow (Suc i) x =
     shuffle_loop randbelow i
       (exchange (Suc i) (randbelow (Suc i + 1) mod (Suc i + 1)) x)"

definition random_shuffle :: "(nat \<Rightarrow> nat) \<Rightarrow> 'a list \<Rightarrow> 'a list" where
  "random_shuffle randbelow x = shuffle_loop randbelow (length x - 1) x"

record shuffle_answer =
  shuffled_image_url :: string
  answer_grid_size :: int
  shuffled_image :: image

text \<open>
  \<open>shuffle_image\<close> (\<open>POST /shuffle\<close>). Inputs besides the header: the grid size in the
  configuration, the catalog, the image files by path, the random generator, the
  millisecond clock and whether the rendered file exists after \<open>Image.save\<close>.
  A grid size of zero raises \<open>ZeroDivisionError\<close> at \<open>512 // grid_size\<close>; a negative
  one gives a negative patch size, which \<open>reshape\<close> refuses; one above 512 gives patch
  size and target size zero, which \<open>resize\<close> refuses. All three are answered with
  status 500 by the \<open>except\<close> clause.
\<close>

definition shuffle_image ::
  "string option \<Rightarrow> int \<Rightarrow> catalog \<Rightarrow> (string \<Rightarrow> source_image option) \<Rightarrow> (nat \<Rightarrow> nat) \<Rightarrow>
     nat \<Rightarrow> bool \<Rightarrow> registry \<Rightarrow> (error + shuffle_answer) \<times> registry" where
  "shuffle_image session_id grid_size image_metadata images randbelow timestamp file_created reg =
     (case find_session session_id reg of
        None \<Rightarrow> (Inl SessionExpired, reg)
      | Some (sid, s) \<Rightarrow>
          (case current_image_name s of
             None \<Rightarrow> (Inl NoImageSelected, reg)
           | Some name \<Rightarrow>
               (case map_of image_metadata (current_level s) of
                  None \<Rightarrow> (Inl InvalidLevel, reg)
                | Some level_data \<Rightarrow>
                    if map_of level_data name = None then (Inl ImageNotInLevel, reg)
                    else if grid_size = 0 then (Inl ShuffleFailed, reg)
                    else
                      let patch_size = 512 div grid_size;
                          target_size = patch_size * grid_size
                      in (case images (image_path (current_level s) name) of
                            None \<Rightarrow> (Inl ImageNotFound, reg)
                          | Some src \<Rightarrow>
                              if patch_size \<le> 0 then (Inl ShuffleFailed, reg)
                              else
                                let img = img_array src (nat target_size);
                                    h = length img;
                                    w = length (hd img)
                                in (case extract_patches (nat patch_size) img of
                                      Inl e \<Rightarrow> (Inl ShuffleFailed, reg)
                                    | Inr patches_array \<Rightarrow>
                                        let original = [0..<length patches_array];
                                            shuffled = random_shuffle randbelow original;
                                            s1 = s\<lparr> patches := Some patches_array,
                                                    original_positions := Some original,
                                                    shuffled_positions := Some shuffled \<rparr>;
                                            reg1 = put_session sid s1 reg
                                        in (case paste_loop False patch_size patches_array shuffled
                                                   (List.product (py_range (int h) patch_size)
                                                      (py_range (int w) patch_size))
                                                   0 (zeros h w) of
                                              Inl e \<Rightarrow> (Inl ShuffleFailed, reg1)
                                            | Inr rendered \<Rightarrow>
                                                if \<not> file_created
                                                then (Inl FailedToCreateImage, reg1)
                                                else
                                                  let name' = temp_name ''shuffled'' sid
                                                                (current_level s1) timestamp
                                                  in (Inr \<lparr> shuffled_image_url =
                                                               ''/static/images/temp/'' @ name',
                                                             answer_grid_size = grid_size,
                                                             shuffled_image = rendered \<rparr>,
                                                      put_session sid
                                                        (s1\<lparr> current_shuffled_image_path :=
                                                                Some (''app/static/images/temp/'' @ name') \<rparr>)
                                                        reg1)))))))"

section \<open>Image selection (\<open>get_image\<close>)\<close>

record image_answer =
  image_url :: string
  image_metadata_of :: metadata
  answer_start_time :: int
  answer_session_id :: string

text \<open>
  \<open>get_image\<close> (\<open>GET /image\<close>): sweeps the expired sessions, resolves the session,
  then draws an image of the session's level. \<open>choice\<close> is the draw of
  \<open>random.choice\<close>, reduced into the range of the list. The image name is stored in
  the session before the file is looked for.
\<close>

definition get_image ::
  "string option \<Rightarrow> int \<Rightarrow> string \<Rightarrow> nat \<Rightarrow> catalog \<Rightarrow> (string \<Rightarrow> source_image option) \<Rightarrow>
     registry \<Rightarrow> (error + image_answer) \<times> registry" where
  "get_image session_id now uuid4 choice image_metadata images reg =
     (let reg0 = cleanup_expired_sessions now reg;
          (sid, reg1) = get_or_create_session session_id now uuid4 reg0
      in case fmlookup (game_sessions reg1) sid of
           None \<Rightarrow> (Inl InvalidSession, reg1)
         | Some s \<Rightarrow>
             (case map_of image_metadata (current_level s) of
                None \<Rightarrow> (Inl LevelDataNotFound, reg1)
              | Some level_data \<Rightarrow>
                  if level_data = [] then (Inl NoImagesInLevel, reg1)
                  else
                    let (name, meta) = level_data ! (choice mod length level_data);
                        s1 = s\<lparr> current_image_name := Some name \<rparr>;
                        reg2 = put_session sid s1 reg1
                    in if images (image_path (current_level s) name) = None
                       then (Inl ImageNotFound, reg2)
                       else
                         let s2 = (if start_time s1 = None then s1\<lparr> start_time := Some now \<rparr>
                                   else s1);
                             reg3 = put_session sid s2 reg2
                         in (Inr \<lparr> image_url = ''/static/images/'' @ current_level s @ ''/'' @ name,
                                    image_metadata_of = meta,
                                    answer_start_time = the (start_time s2),
                                    answer_session_id = sid \<rparr>,
                             reg3)))"

section \<open>Closed forms of the partition and of the rendering\<close>

text \<open>
  What the array operations and the loops above compute, written pixel by pixel.
  Tile \<open>k\<close> of a grid of \<open>g\<close> by \<open>g\<close> tiles of edge \<open>p\<close> is the block in row
  \<open>k div g\<close> and column \<open>k mod g\<close> of the resized image. The composed image puts
  into slot \<open>(y div p) * g + x div p\<close> the patch that the positions name for that slot.
  That the code computes these is proved below.
\<close>

definition tile :: "source_image \<Rightarrow> nat \<Rightarrow> nat \<Rightarrow> nat \<Rightarrow> patch" where
  "tile src p g k =
     map (\<lambda>r. map (\<lambda>c. resized_L src (p * g) ((k div g) * p + r) ((k mod g) * p + c)) [0..<p])
       [0..<p]"

definition tiles :: "source_image \<Rightarrow> nat \<Rightarrow> nat \<Rightarrow> patch list" where
  "tiles src p g = map (tile src p g) [0..<g * g]"

definition compose :: "nat \<Rightarrow> nat \<Rightarrow> patch list \<Rightarrow> nat list \<Rightarrow> image" where
  "compose p g ps positions =
     map (\<lambda>y. map (\<lambda>x. ps ! (positions ! ((y div p) * g + x div p)) ! (y mod p) ! (x mod p))
                [0..<p * g])
       [0..<p * g]"

section \<open>Invariant of an arrangement\<close>

definition is_permutation :: "nat \<Rightarrow> nat list \<Rightarrow> bool" where
  "is_permutation n xs \<longleftrightarrow> length xs = n \<and> distinct xs \<and> list_all (\<lambda>x. x < n) xs"

text \<open>
  A session either has no arrangement at all, or its three parts fit together: the
  original order counts the patches, and the current order permutes it.
\<close>

definition arrangement_ok :: "session \<Rightarrow> bool" where
  "arrangement_ok s =
     (case (original_positions s, shuffled_positions s, patches s) of
        (None, None, None) \<Rightarrow> True
      | (Some orig, Some cur, Some ps) \<Rightarrow>
          orig = [0..<length ps] \<and> is_permutation (length ps) cur
      | _ \<Rightarrow> False)"

text \<open>
  The patches of a session are those of a grid of \<open>g\<close> by \<open>g\<close> tiles cut from a
  512-pixel edge: \<open>g * g\<close> patches, each a square of edge \<open>512 // g\<close>.
\<close>

definition tiled :: "int \<Rightarrow> session \<Rightarrow> bool" where
  "tiled g s \<longleftrightarrow>
     1 \<le> g \<and> g \<le> 512 \<and>
     (case patches s of
        None \<Rightarrow> False
      | Some ps \<Rightarrow>
          length ps = nat (g * g) \<and>
          list_all (\<lambda>p. length p = nat (512 div g) \<and>
                         list_all (\<lambda>row. length row = nat (512 div g)) p) ps)"

definition registry_ok :: "registry \<Rightarrow> bool" where
  "registry_ok reg = fmpred (\<lambda>sid s. arrangement_ok s) (game_sessions reg)"

text \<open>
  The registries the running server can hold: it starts empty, and each request runs
  one of the endpoints, with whatever inputs and environment.
\<close>

inductive reachable :: "registry \<Rightarrow> bool" where
  start: "reachable \<lparr> game_sessions = fmempty, session_timeouts = fmempty \<rparr>"
| image: "reachable reg \<Longrightarrow>
     reachable (snd (get_image session_id now uuid4 choice image_metadata images reg))"
| shuffle: "reachable reg \<Longrightarrow>
     reachable (snd (shuffle_image session_id grid_size image_metadata images randbelow
                       timestamp file_created reg))"
| swap: "reachable reg \<Longrightarrow>
     reachable (snd (swap_patches index1 index2 session_id grid_size timestamp file_created reg))"
| advance: "reachable reg \<Longrightarrow> reachable (snd (next_level session_id image_metadata reg))"

section \<open>Python floats\<close>

text \<open>
  A Python \<open>float\<close> is an IEEE 754 double. A finite double is the rational number it
  denotes; \<open>to_double\<close> rounds a rational to the nearest double, ties to the even
  significand, with 53 significant bits, the smallest quantum \<open>2\<^sup>-\<^sup>1\<^sup>0\<^sup>7\<^sup>4\<close> of the
  subnormal range, and \<open>None\<close> for a result of magnitude \<open>2\<^sup>1\<^sup>0\<^sup>2\<^sup>4\<close> or more
  (an infinity, or \<open>OverflowError\<close> where Python raises). \<open>exponent y\<close> is the
  largest \<open>e\<close> with \<open>2\<^sup>e \<le> y\<close>, searched for within the range a double can need.
\<close>

fun exponent_from :: "nat \<Rightarrow> rat \<Rightarrow> int \<Rightarrow> int" where
  "exponent_from 0 y e = e"
| "exponent_from (Suc n) y e =
     (if y < 1 then exponent_from n (y * 2) (e - 1)
      else if 2 \<le> y then exponent_from n (y / 2) (e + 1)
      else e)"

definition exponent :: "rat \<Rightarrow> int" where
  "exponent y = exponent_from 2200 y 0"

definition pow2 :: "int \<Rightarrow> rat" where
  "pow2 e = (if 0 \<le> e then 2 ^ nat e else 1 / 2 ^ nat (- e))"

definition round_half_even :: "rat \<Rightarrow> int" where
  "round_half_even x =
     (let f = \<lfloor>x\<rfloor>; d = x - of_int f
      in if d < 1 / 2 then f
         else if 1 / 2 < d then f + 1
         else if even f then f else f + 1)"

definition to_double :: "rat \<Rightarrow> rat option" where
  "to_double x =
     (if x = 0 then Some 0
      else
        let e = max (exponent \<bar>x\<bar> - 52) (- 1074);
            r = of_int (round_half_even (\<bar>x\<bar> / pow2 e)) * pow2 e
        in if 2 ^ 1024 \<le> r then None else Some (sgn x * r))"

text \<open>
  \<open>a / b\<close> on two integers is the correctly rounded quotient; \<open>n * x\<close> on an integer
  and a float converts the integer first; \<open>int(x)\<close> drops the fractional part;
  \<open>round(x, 2)\<close> rounds the exact value of \<open>x\<close> to two decimals, ties to even, and
  gives the nearest double.
\<close>

definition float_truediv :: "int \<Rightarrow> int \<Rightarrow> rat option" where
  "float_truediv a b = (if b = 0 then None else to_double (of_int a / of_int b))"

definition float_of_int :: "int \<Rightarrow> rat option" where
  "float_of_int n = to_double (of_int n)"

definition float_mul :: "rat \<Rightarrow> rat \<Rightarrow> rat option" where
  "float_mul x y = to_double (x * y)"

definition py_int :: "rat \<Rightarrow> int" where
  "py_int x = (if 0 \<le> x then \<lfloor>x\<rfloor> else \<lceil>x\<rceil>)"

definition py_round2 :: "rat \<Rightarrow> rat option" where
  "py_round2 x = to_double (of_int (round_half_even (x * 100)) / 100)"

section \<open>Scores (\<open>save_score\<close> and \<open>database.py\<close>)\<close>

text \<open>
  The two tables of the database. The \<open>scores\<close> table grows at its end; the
  \<open>players\<close> table is keyed by the player's identifier. The foreign key of the
  \<open>scores\<close> table is declared but not enforced: no connection switches the check
  on, so a row for an unknown player is inserted. Failures of the database file
  itself (a missing file, a lock) are outside the model.
\<close>

record score_row =
  row_player_id :: string
  row_level :: string
  row_score :: int
  row_timestamp :: int

record player =
  username :: string
  total_score :: int

record database =
  players :: "(string, player) fmap"
  scores :: "score_row list"

text \<open>
  An \<open>INTEGER\<close> of the database has 64 bits: binding a Python integer outside this
  range raises \<open>OverflowError\<close>, and \<open>SUM\<close> over integers raises once a partial sum
  leaves the range.
\<close>

definition sqlite_integer :: "int \<Rightarrow> bool" where
  "sqlite_integer v \<longleftrightarrow> - (2 ^ 63) \<le> v \<and> v < 2 ^ 63"

fun sqlite_sum :: "int \<Rightarrow> int list \<Rightarrow> int option" where
  "sqlite_sum acc [] = Some acc"
| "sqlite_sum acc (v # vs) =
     (if sqlite_integer (acc + v) then sqlite_sum (acc + v) vs else None)"

text \<open>
  \<open>database.save_score\<close>: inserts \<open>int(weighted_score)\<close>, sets the player's total to
  the sum of the player's rows, and returns the total read back, or 0 when there is no
  such player. The product handed over is \<open>None\<close> when it is an infinity, on which
  \<open>int\<close> raises. Every exception is caught and nothing is committed: the result is
  \<open>None\<close> for \<open>(False, None, str(e))\<close>, and the database is as before.
\<close>

definition db_save_score ::
  "string \<Rightarrow> string \<Rightarrow> rat option \<Rightarrow> int \<Rightarrow> database \<Rightarrow> (int \<times> database) option" where
  "db_save_score player_id lvl weighted_score now db =
     (case weighted_score of
        None \<Rightarrow> None
      | Some w \<Rightarrow>
          if \<not> sqlite_integer (py_int w) then None
          else
            let rows = scores db @
                         [\<lparr> row_player_id = player_id, row_level = lvl,
                            row_score = py_int w, row_timestamp = now \<rparr>]
            in case fmlookup (players db) player_id of
                 None \<Rightarrow> Some (0, db\<lparr> scores := rows \<rparr>)
               | Some pl \<Rightarrow>
                   (case sqlite_sum 0
                           (map row_score (filter (\<lambda>r. row_player_id r = player_id) rows)) of
                      None \<Rightarrow> None
                    | Some total_sc \<Rightarrow>
                        Some (total_sc,
                              db\<lparr> scores := rows,
                                  players :=
                                    fmupd player_id (pl\<lparr> total_score := total_sc \<rparr>)
                                      (players db) \<rparr>)))"

definition label_weights :: "(string \<times> int \<times> int) list" where
  "label_weights =
     [(''level_1'', 10, 3), (''level_2'', 20, 3), (''level_3'', 30, 3), (''level_4'', 40, 5)]"

record score_answer =
  answer_total_score :: int
  answer_weighted_score :: rat
  answer_timestamp :: int
  answer_start :: "int option"

text \<open>
  \<open>save_score\<close> (\<open>POST /save_score\<close>), for a request whose \<open>score\<close> is a JSON
  integer. The clock is read twice, for the row and for the answer. An integer too
  large for a float makes the product raise, and so would a rounded value out of
  range: the exception leaves the endpoint, which is status 500. The rate limit of
  the endpoint is outside the model.
\<close>

definition save_score ::
  "string option \<Rightarrow> string option \<Rightarrow> string option \<Rightarrow> int option \<Rightarrow> int \<Rightarrow> int \<Rightarrow> registry \<Rightarrow>
     database \<Rightarrow> (error + score_answer) \<times> database" where
  "save_score session_id player_id lvl score now_row now reg db =
     (let start = (case find_session session_id reg of
                     None \<Rightarrow> None
                   | Some (sid, s) \<Rightarrow> start_time s)
      in case (player_id, lvl, score) of
           (Some pid, Some l, Some sc) \<Rightarrow>
             if pid = [] \<or> l = [] then (Inl InvalidData, db)
             else
               (case map_of label_weights l of
                  None \<Rightarrow> (Inl InvalidScoreLevel, db)
                | Some (weight, num_questions) \<Rightarrow>
                    (case float_truediv weight num_questions of
                       None \<Rightarrow> (Inl InternalServerError, db)
                     | Some weight_per_question \<Rightarrow>
                         (case float_of_int sc of
                            None \<Rightarrow> (Inl InternalServerError, db)
                          | Some fsc \<Rightarrow>
                              let weighted_score = float_mul fsc weight_per_question
                              in (case db_save_score pid l weighted_score now_row db of
                                    None \<Rightarrow> (Inl FailedToSaveScore, db)
                                  | Some (total_sc, db') \<Rightarrow>
                                      (case Option.bind weighted_score py_round2 of
                                         None \<Rightarrow> (Inl InternalServerError, db')
                                       | Some rounded \<Rightarrow>
                                           (Inr \<lparr> answer_total_score = total_sc,
                                                  answer_weighted_score = rounded,
                                                  answer_timestamp = now,
                                                  answer_start = start \<rparr>,
                                            db'))))))
         | _ \<Rightarrow> (Inl InvalidData, db))"

section \<open>A small running example\<close>

text \<open>
  One level with one image, an all-black picture of 1000 by 1000 pixels (whatever the
  resampling filter, its resized copies are black), and a registry holding one session
  that has drawn this image. \<open>example_puzzle g\<close> is the registry after that session
  has asked for a shuffle while the configured grid size is \<open>g\<close>, with a generator
  that always draws zero.
\<close>

definition black_image :: "nat \<Rightarrow> source_image" where
  "black_image edge = \<lparr> src_width = edge, src_height = edge, resized_L = (\<lambda>t r c. 0) \<rparr>"

definition example_catalog :: catalog where
  "example_catalog =
     [(''level_1'', [(''scan.png'', \<lparr> organ = ''Unknown'', modality = ''Unknown'', questions = [] \<rparr>)]),
      (''level_2'', [])]"

definition example_images :: "string \<Rightarrow> source_image option" where
  "example_images path =
     (if path = ''app/static/images/level_1/scan.png'' then Some (black_image 1000) else None)"

definition example_session :: session where
  "example_session = new_session\<lparr> current_image_name := Some ''scan.png'', start_time := Some 0 \<rparr>"

definition example_registry :: registry where
  "example_registry =
     \<lparr> game_sessions = fmupd ''s1'' example_session fmempty,
       session_timeouts = fmupd ''s1'' 3600000000 fmempty \<rparr>"

definition zero_draws :: "nat \<Rightarrow> nat" where
  "zero_draws n = 0"

definition example_puzzle :: "int \<Rightarrow> registry" where
  "example_puzzle g =
     snd (shuffle_image (Some ''s1'') g example_catalog example_images zero_draws 0 True
            example_registry)"

text \<open>The example session as \<open>example_puzzle 2\<close> holds it.\<close>

definition example_arrangement :: session where
  "example_arrangement =
     example_session
       \<lparr> patches := Some (tiles (black_image 1000) 256 2),
         original_positions := Some [0, 1, 2, 3],
         shuffled_positions := Some [1, 2, 3, 0],
         current_shuffled_image_path :=
           Some (''app/static/images/temp/'' @ temp_name ''shuffled'' ''s1'' ''level_1'' 0) \<rparr>"

text \<open>
  A database with one player, who has one row: two right answers on the first level,
  stored as 6.
\<close>

definition example_database :: database where
  "example_database =
     \<lparr> players = fmupd ''p1'' \<lparr> username = ''ann'', total_score = 6 \<rparr> fmempty,
       scores = [\<lparr> row_player_id = ''p1'', row_level = ''level_1'', row_score = 6,
                   row_timestamp = 0 \<rparr>] \<rparr>"

section \<open>Basic facts about the registry and the exchange of two slots\<close>

lemma exchange_length [simp]: "length (exchange i j xs) = length xs"
  by (simp add: exchange_def)

lemma exchange_twice:
  "i < length xs \<Longrightarrow> j < length xs \<Longrightarrow> exchange i j (exchange i j xs) = xs"
  by (auto simp: exchange_def list_eq_iff_nth_eq nth_list_update)

lemma exchange_same: "i < length xs \<Longrightarrow> exchange i i xs = xs"
  by (simp add: exchange_def)

lemma set_exchange:
  "i < length xs \<Longrightarrow> j < length xs \<Longrightarrow> set (exchange i j xs) = set xs"
  unfolding exchange_def by (metis set_swap)

lemma distinct_exchange:
  "i < length xs \<Longrightarrow> j < length xs \<Longrightarrow> distinct (exchange i j xs) = distinct xs"
  unfolding exchange_def by (metis distinct_swap)

lemma is_permutation_exchange:
  "i < length xs \<Longrightarrow> j < length xs \<Longrightarrow>
     is_permutation n (exchange i j xs) = is_permutation n xs"
  by (simp add: is_permutation_def set_exchange distinct_exchange list_all_iff)

lemma find_session_SomeD:
  "find_session session_id reg = Some (sid, s) \<Longrightarrow>
     session_id = Some sid \<and> sid \<noteq> [] \<and> fmlookup (game_sessions reg) sid = Some s"
  by (auto simp: find_session_def split: option.splits if_splits)

lemma find_session_put:
  "find_session session_id reg = Some (sid, s) \<Longrightarrow>
     find_session session_id (put_session sid s' reg) = Some (sid, s')"
  by (auto simp: find_session_def put_session_def split: option.splits if_splits)

lemma put_session_twice [simp]:
  "put_session sid s2 (put_session sid s1 reg) = put_session sid s2 reg"
  by (simp add: put_session_def)

lemma put_session_same:
  "fmlookup (game_sessions reg) sid = Some s \<Longrightarrow> put_session sid s reg = reg"
proof -
  assume a: "fmlookup (game_sessions reg) sid = Some s"
  have "fmupd sid s (game_sessions reg) = game_sessions reg"
    by (rule fmap_ext) (use a in auto)
  then show ?thesis by (simp add: put_session_def)
qed

section \<open>Expiry sweep\<close>

text \<open>
  Claim C9. After \<open>cleanup_expired_sessions\<close> has run at time \<open>now\<close>, every session
  whose expiry time stamp lies before \<open>now\<close> is gone from both dictionaries, and every
  other entry of either dictionary is what it was before the sweep.
\<close>

theorem sweep_removes_exactly_expired:
  "(\<forall>sid t. fmlookup (session_timeouts reg) sid = Some t \<and> t < now \<longrightarrow>
       fmlookup (game_sessions (cleanup_expired_sessions now reg)) sid = None \<and>
       fmlookup (session_timeouts (cleanup_expired_sessions now reg)) sid = None) \<and>
   (\<forall>sid. \<not> (\<exists>t. fmlookup (session_timeouts reg) sid = Some t \<and> t < now) \<longrightarrow>
       fmlookup (game_sessions (cleanup_expired_sessions now reg)) sid =
         fmlookup (game_sessions reg) sid \<and>
       fmlookup (session_timeouts (cleanup_expired_sessions now reg)) sid =
         fmlookup (session_timeouts reg) sid)"
  by (auto simp: cleanup_expired_sessions_def expired_sessions_def Let_def fmlookup_dom_iff
           split: option.splits)

text \<open>
  Two sessions, \<open>a\<close> expiring at 5 and \<open>b\<close> at 20, swept at time 10: \<open>a\<close> goes,
  \<open>b\<close> stays.
\<close>

theorem sweep_removes_exactly_expired_witness:
  "fmlookup (session_timeouts
       \<lparr> game_sessions = fmupd ''a'' new_session (fmupd ''b'' new_session fmempty),
         session_timeouts = fmupd ''a'' 5 (fmupd ''b'' 20 fmempty) \<rparr>) ''a'' = Some 5 \<and>
   (5::int) < 10 \<and>
   fmlookup (game_sessions (cleanup_expired_sessions 10
       \<lparr> game_sessions = fmupd ''a'' new_session (fmupd ''b'' new_session fmempty),
         session_timeouts = fmupd ''a'' 5 (fmupd ''b'' 20 fmempty) \<rparr>)) ''a'' = None \<and>
   \<not> (\<exists>t. fmlookup (session_timeouts
       \<lparr> game_sessions = fmupd ''a'' new_session (fmupd ''b'' new_session fmempty),
         session_timeouts = fmupd ''a'' 5 (fmupd ''b'' 20 fmempty) \<rparr>) ''b'' = Some t \<and> t < 10) \<and>
   fmlookup (game_sessions (cleanup_expired_sessions 10
       \<lparr> game_sessions = fmupd ''a'' new_session (fmupd ''b'' new_session fmempty),
         session_timeouts = fmupd ''a'' 5 (fmupd ''b'' 20 fmempty) \<rparr>)) ''b'' = Some new_session"
proof -
  let ?R = "\<lparr> game_sessions = fmupd ''a'' new_session (fmupd ''b'' new_session fmempty),
         session_timeouts = fmupd ''a'' (5::int) (fmupd ''b'' 20 fmempty) \<rparr>"
  have a: "fmlookup (session_timeouts ?R) ''a'' = Some 5 \<and> (5::int) < 10" by simp
  have b: "\<not> (\<exists>t. fmlookup (session_timeouts ?R) ''b'' = Some t \<and> t < 10)" by simp
  from sweep_removes_exactly_expired [of ?R 10] a
  have 1: "fmlookup (game_sessions (cleanup_expired_sessions 10 ?R)) ''a'' = None" by blast
  from sweep_removes_exactly_expired [of ?R 10] b
  have "fmlookup (game_sessions (cleanup_expired_sessions 10 ?R)) ''b'' =
          fmlookup (game_sessions ?R) ''b''" by blast
  then have 2: "fmlookup (game_sessions (cleanup_expired_sessions 10 ?R)) ''b'' = Some new_session"
    by simp
  from a b 1 2 show ?thesis by blast
qed

section \<open>Session resolution\<close>

text \<open>
  Claim C4, as stated, fails: \<open>get_or_create_session\<close> never compares the expiry time
  with the clock. A session whose time stamp has passed but which no sweep has removed
  yet is found by its token, gets a new expiry and is returned; no fresh session is
  allocated. Here session \<open>a\<close> expired at 5 and is resolved at 10.
\<close>

theorem resolve_expired_counterexample:
  "fmlookup (session_timeouts
       \<lparr> game_sessions = fmupd ''a'' new_session fmempty,
         session_timeouts = fmupd ''a'' 5 fmempty \<rparr>) ''a'' = Some 5 \<and>
   (5::int) < 10 \<and>
   get_or_create_session (Some ''a'') 10 ''b''
       \<lparr> game_sessions = fmupd ''a'' new_session fmempty,
         session_timeouts = fmupd ''a'' 5 fmempty \<rparr> =
     (''a'', \<lparr> game_sessions = fmupd ''a'' new_session fmempty,
              session_timeouts = fmupd ''a'' 3600000010 fmempty \<rparr>)"
  by (simp add: get_or_create_session_def timedelta_minutes_def SESSION_TIMEOUT_MINUTES_def)

text \<open>
  Claim C4, amended. Resolution never fails and has two outcomes. A non-empty token
  that is a key of the registry (whatever its expiry time) gets the expiry
  \<open>now + 60 min\<close> and is returned, and its session is left as it was. Every other
  token (none, empty, or not a key) yields the freshly generated token, stored with
  the expiry \<open>now + 60 min\<close> and a session at level \<open>level_1\<close> with no arrangement and
  no image.
\<close>

theorem resolve_present_or_fresh:
  "(sid \<noteq> [] \<and> fmlookup (game_sessions reg) sid = Some s \<longrightarrow>
      get_or_create_session (Some sid) now uuid4 reg =
        (sid, reg\<lparr> session_timeouts := fmupd sid (now + 3600000000) (session_timeouts reg) \<rparr>) \<and>
      fmlookup (game_sessions (snd (get_or_create_session (Some sid) now uuid4 reg))) sid = Some s) \<and>
   (session_id = None \<or> session_id = Some [] \<or>
      (\<exists>sid. session_id = Some sid \<and> fmlookup (game_sessions reg) sid = None) \<longrightarrow>
      get_or_create_session session_id now uuid4 reg =
        (uuid4, reg\<lparr> game_sessions := fmupd uuid4 new_session (game_sessions reg),
                     session_timeouts := fmupd uuid4 (now + 3600000000) (session_timeouts reg) \<rparr>) \<and>
      fmlookup (game_sessions (snd (get_or_create_session session_id now uuid4 reg))) uuid4 =
        Some new_session \<and>
      current_level new_session = ''level_1'' \<and>
      original_positions new_session = None \<and>
      shuffled_positions new_session = None \<and>
      patches new_session = None \<and>
      current_image_name new_session = None)"
  by (auto simp: get_or_create_session_def timedelta_minutes_def SESSION_TIMEOUT_MINUTES_def
        new_session_def)

text \<open>The same registry: token \<open>a\<close> is kept, no token gives the new session \<open>b\<close>.\<close>

theorem resolve_present_or_fresh_witness:
  "get_or_create_session (Some ''a'') 10 ''b''
       \<lparr> game_sessions = fmupd ''a'' new_session fmempty,
         session_timeouts = fmupd ''a'' 5 fmempty \<rparr> =
     (''a'', \<lparr> game_sessions = fmupd ''a'' new_session fmempty,
              session_timeouts = fmupd ''a'' 3600000010 fmempty \<rparr>) \<and>
   get_or_create_session None 10 ''b''
       \<lparr> game_sessions = fmupd ''a'' new_session fmempty,
         session_timeouts = fmupd ''a'' 5 fmempty \<rparr> =
     (''b'', \<lparr> game_sessions = fmupd ''b'' new_session (fmupd ''a'' new_session fmempty),
              session_timeouts = fmupd ''b'' 3600000010 (fmupd ''a'' 5 fmempty) \<rparr>)"
proof -
  let ?R = "\<lparr> game_sessions = fmupd ''a'' new_session fmempty,
         session_timeouts = fmupd ''a'' (5::int) fmempty \<rparr>"
  have p: "''a'' \<noteq> [] \<and> fmlookup (game_sessions ?R) ''a'' = Some new_session" by simp
  from resolve_present_or_fresh [of "''a''" ?R new_session 10 "''b''" None] p
  have 1: "get_or_create_session (Some ''a'') 10 ''b'' ?R =
        (''a'', ?R\<lparr> session_timeouts := fmupd ''a'' (10 + 3600000000) (session_timeouts ?R) \<rparr>)"
    by blast
  from resolve_present_or_fresh [of "''a''" ?R new_session 10 "''b''" None]
  have 2: "get_or_create_session None 10 ''b'' ?R =
        (''b'', ?R\<lparr> game_sessions := fmupd ''b'' new_session (game_sessions ?R),
                     session_timeouts := fmupd ''b'' (10 + 3600000000) (session_timeouts ?R) \<rparr>)"
    by blast
  from 1 2 show ?thesis by simp
qed

section \<open>Level progression\<close>

lemma index_of_last:
  "distinct xs \<Longrightarrow> xs \<noteq> [] \<Longrightarrow> index_of xs (last xs) = length xs - 1"
  by (induction xs) auto

text \<open>
  Claim C5, as stated, fails: on the last level \<open>next_level\<close> answers with the
  completion message and a null level, but it does not write to the session, whose
  level stays the last level of the catalog.
\<close>

theorem advance_at_last_level_counterexample:
  "next_level (Some ''a'') [(''level_1'', []), (''level_2'', [])]
       \<lparr> game_sessions = fmupd ''a'' (new_session\<lparr> current_level := ''level_2'' \<rparr>) fmempty,
         session_timeouts = fmupd ''a'' 5 fmempty \<rparr> =
     (Inr (LevelAnswer ''You have completed all levels!'' None),
      \<lparr> game_sessions = fmupd ''a'' (new_session\<lparr> current_level := ''level_2'' \<rparr>) fmempty,
        session_timeouts = fmupd ''a'' 5 fmempty \<rparr>) \<and>
   current_level (new_session\<lparr> current_level := ''level_2'' \<rparr>) = ''level_2''"
  by (simp add: next_level_def find_session_def Let_def)

text \<open>
  Claim C5, amended. For a session at the last level of a catalog (a JSON object, so
  its level names are distinct), \<open>next_level\<close> answers with the completion message and
  a null level, and leaves the registry, hence the session and its level, unchanged.
\<close>

theorem advance_at_last_level:
  assumes "find_session session_id reg = Some (sid, s)"
    and "distinct (map fst image_metadata)"
    and "image_metadata \<noteq> []"
    and "current_level s = fst (last image_metadata)"
  shows "next_level session_id image_metadata reg =
           (Inr (LevelAnswer ''You have completed all levels!'' None), reg)"
proof -
  let ?levels = "map fst image_metadata"
  have ne: "?levels \<noteq> []" using assms(3) by simp
  have cl: "current_level s = last ?levels" using assms(3,4) by (simp add: last_map)
  have mem: "current_level s \<in> set ?levels" by (metis cl ne last_in_set)
  have "index_of ?levels (current_level s) = length ?levels - 1"
    using index_of_last [OF assms(2) ne] cl by simp
  with mem ne assms(1) show ?thesis
    by (simp add: next_level_def Let_def)
qed

theorem advance_at_last_level_witness:
  "find_session (Some ''a'')
       \<lparr> game_sessions = fmupd ''a'' (new_session\<lparr> current_level := ''level_2'' \<rparr>) fmempty,
         session_timeouts = fmupd ''a'' 5 fmempty \<rparr> =
     Some (''a'', new_session\<lparr> current_level := ''level_2'' \<rparr>) \<and>
   distinct (map fst [(''level_1'', []), (''level_2'', [])]) \<and>
   next_level (Some ''a'') [(''level_1'', []), (''level_2'', [])]
       \<lparr> game_sessions = fmupd ''a'' (new_session\<lparr> current_level := ''level_2'' \<rparr>) fmempty,
         session_timeouts = fmupd ''a'' 5 fmempty \<rparr> =
     (Inr (LevelAnswer ''You have completed all levels!'' None),
      \<lparr> game_sessions = fmupd ''a'' (new_session\<lparr> current_level := ''level_2'' \<rparr>) fmempty,
        session_timeouts = fmupd ''a'' 5 fmempty \<rparr>)"
proof -
  let ?s = "new_session\<lparr> current_level := ''level_2'' \<rparr>"
  let ?R = "\<lparr> game_sessions = fmupd ''a'' ?s fmempty,
         session_timeouts = fmupd ''a'' (5::int) fmempty \<rparr>"
  let ?cat = "[(''level_1'', []), (''level_2'', [])] :: catalog"
  have f: "find_session (Some ''a'') ?R = Some (''a'', ?s)" by (simp add: find_session_def)
  have d: "distinct (map fst ?cat)" by simp
  have n: "?cat \<noteq> []" by simp
  have l: "current_level ?s = fst (last ?cat)" by simp
  from advance_at_last_level [OF f d n l] f d show ?thesis by simp
qed

section \<open>The rendering loops and the partition, in closed form\<close>

lemma py_range_exact:
  assumes "0 < p" "0 \<le> g"
  shows "py_range (p * g) p = map (\<lambda>k. int k * p) [0..<nat g]"
proof -
  have "(p * g + p - 1) div p = g"
    by (rule int_div_pos_eq [where r = "p - 1"]) (use assms in \<open>simp_all add: algebra_simps\<close>)
  with assms show ?thesis by (simp add: py_range_def)
qed

lemma product_maps:
  "List.product (map f [0..<n]) (map f [0..<n]) =
     map (\<lambda>k. (f (k div n), f (k mod n))) [0..<n * n]"
proof (rule nth_equalityI)
  show "length (List.product (map f [0..<n]) (map f [0..<n])) =
        length (map (\<lambda>k. (f (k div n), f (k mod n))) [0..<n * n])" by simp
next
  fix i assume "i < length (List.product (map f [0..<n]) (map f [0..<n]))"
  then have i: "i < n * n" by simp
  then have n: "0 < n" by (cases n) auto
  have d: "i div n < n" using i by (simp add: less_mult_imp_div_less)
  have m: "i mod n < n" using n by simp
  show "List.product (map f [0..<n]) (map f [0..<n]) ! i =
        map (\<lambda>k. (f (k div n), f (k mod n))) [0..<n * n] ! i"
    using i d m by (simp add: product_nth)
qed

lemma block_corners_exact:
  assumes "0 < p" "0 \<le> g"
  shows "block_corners (p * g) p =
           map (\<lambda>k. (int (k div nat g) * p, int (k mod nat g) * p)) [0..<nat g * nat g]"
  unfolding block_corners_def py_range_exact [OF assms]
  by (rule product_maps)

lemma length_img_array [simp]: "length (img_array src t) = t"
  by (simp add: img_array_def)

lemma nth_img_array:
  "y < t \<Longrightarrow> img_array src t ! y = map (\<lambda>c. resized_L src t y c) [0..<t]"
  by (simp add: img_array_def)

lemma hd_img_array: "0 < t \<Longrightarrow> length (hd (img_array src t)) = t"
  by (simp add: img_array_def hd_map upt_conv_Cons)

lemma length_concat_uniform:
  "(\<forall>row \<in> set rows. length row = w) \<Longrightarrow> length (concat rows) = length rows * w"
  by (induction rows) auto

lemma nth_concat_uniform:
  "(\<forall>row \<in> set rows. length row = w) \<Longrightarrow> y < length rows \<Longrightarrow> x < w \<Longrightarrow>
     concat rows ! (y * w + x) = rows ! y ! x"
proof (induction rows arbitrary: y)
  case Nil
  then show ?case by simp
next
  case (Cons r rows)
  show ?case
  proof (cases y)
    case 0
    with Cons.prems show ?thesis by (simp add: nth_append)
  next
    case (Suc y')
    with Cons.prems have "concat rows ! (y' * w + x) = rows ! y' ! x"
      by (intro Cons.IH) auto
    with Suc Cons.prems show ?thesis by (simp add: nth_append)
  qed
qed

lemma length_set_block [simp]: "length (set_block i j p patch img) = length img"
  by (simp add: set_block_def)

lemma nth_enumerate_map:
  "y < length xs \<Longrightarrow> map f (enumerate 0 xs) ! y = f (y, xs ! y)"
  by (simp add: nth_enumerate_eq)

lemma length_nth_set_block [simp]:
  "y < length img \<Longrightarrow> length (set_block i j p patch img ! y) = length (img ! y)"
  by (simp add: set_block_def nth_enumerate_eq)

lemma nth_set_block:
  "y < length img \<Longrightarrow> x < length (img ! y) \<Longrightarrow>
     set_block i j p patch img ! y ! x =
       (if i \<le> y \<and> y < i + p \<and> j \<le> x \<and> x < j + p then patch ! (y - i) ! (x - j)
        else img ! y ! x)"
  by (simp add: set_block_def nth_enumerate_eq)

lemma in_block_iff:
  fixes p :: nat
  assumes "0 < p"
  shows "(a * p \<le> y \<and> y < a * p + p) \<longleftrightarrow> y div p = a"
proof
  assume h: "a * p \<le> y \<and> y < a * p + p"
  then have "y < (Suc a) * p" by simp
  with h assms show "y div p = a"
    by (metis div_nat_eqI mult.commute)
next
  assume "y div p = a"
  then have "a * p \<le> y" and "y < (Suc a) * p"
    using assms by (auto simp: div_times_less_eq_dividend)
       (metis dividend_less_div_times add.commute mult.commute)
  then show "a * p \<le> y \<and> y < a * p + p" by simp
qed

lemma slot_eq_iff:
  fixes g :: nat
  assumes "b < g"
  shows "a * g + b = m \<longleftrightarrow> a = m div g \<and> b = m mod g"
  using assms by (auto simp: div_mult_self3)

lemma div_less_grid:
  fixes p g :: nat
  assumes "x < p * g"
  shows "x div p < g"
  using assms by (simp add: less_mult_imp_div_less mult.commute)

lemma paste_loop_blocks:
  fixes p g :: nat
  assumes p: "0 < p" and g: "0 < g"
    and len: "length img = p * g"
    and rows: "\<forall>y < p * g. length (img ! y) = p * g"
    and n: "n \<le> g * g" and pos: "n \<le> length positions"
    and inr: "\<forall>k < n. positions ! k < length ps"
    and shp: "check \<longrightarrow> (\<forall>k < n. patch_shape (ps ! (positions ! k)) = [int p, int p])"
  shows "\<exists>img'. paste_loop check (int p) ps positions
            (map (\<lambda>k. (int (k div g) * int p, int (k mod g) * int p)) [m..<n]) m img = Inr img' \<and>
          length img' = p * g \<and>
          (\<forall>y < p * g. length (img' ! y) = p * g) \<and>
          (\<forall>y < p * g. \<forall>x < p * g.
             img' ! y ! x =
               (if m \<le> (y div p) * g + x div p \<and> (y div p) * g + x div p < n
                then ps ! (positions ! ((y div p) * g + x div p)) ! (y mod p) ! (x mod p)
                else img ! y ! x))"
  using len rows
proof (induction "n - m" arbitrary: m img)
  case 0
  then have e: "[m..<n] = []" and nm: "n \<le> m" by simp_all
  have "paste_loop check (int p) ps positions
            (map (\<lambda>k. (int (k div g) * int p, int (k mod g) * int p)) [m..<n]) m img = Inr img"
    unfolding e by simp
  moreover have "\<forall>y < p * g. \<forall>x < p * g.
             img ! y ! x =
               (if m \<le> (y div p) * g + x div p \<and> (y div p) * g + x div p < n
                then ps ! (positions ! ((y div p) * g + x div p)) ! (y mod p) ! (x mod p)
                else img ! y ! x)"
    using nm by auto
  ultimately show ?case using "0.prems" by blast
next
  case (Suc d)
  then have mn: "m < n" and d: "d = n - Suc m" by simp_all
  let ?corner = "\<lambda>k. (int (k div g) * int p, int (k mod g) * int p)"
  let ?patch = "ps ! (positions ! m)"
  let ?img1 = "set_block (m div g * p) (m mod g * p) p ?patch img"
  have upt: "[m..<n] = m # [Suc m..<n]" using mn by (simp add: upt_conv_Cons)
  have len1: "length ?img1 = p * g" using Suc.prems by simp
  have rows1: "\<forall>y < p * g. length (?img1 ! y) = p * g" using Suc.prems by simp
  from Suc.hyps(1) [OF d len1 rows1]
  obtain img' where rec: "paste_loop check (int p) ps positions (map ?corner [Suc m..<n]) (Suc m) ?img1
                            = Inr img'"
    and l': "length img' = p * g" and r': "\<forall>y < p * g. length (img' ! y) = p * g"
    and px: "\<forall>y < p * g. \<forall>x < p * g.
             img' ! y ! x =
               (if Suc m \<le> (y div p) * g + x div p \<and> (y div p) * g + x div p < n
                then ps ! (positions ! ((y div p) * g + x div p)) ! (y mod p) ! (x mod p)
                else ?img1 ! y ! x)"
    by blast
  have nat1: "nat (int (m div g) * int p) = m div g * p" "nat (int (m mod g) * int p) = m mod g * p"
    by (simp_all add: nat_mult_distrib)
  have step: "paste_loop check (int p) ps positions (map ?corner [m..<n]) m img = Inr img'"
  proof -
    have a: "\<not> length positions \<le> m" using mn pos by simp
    have b: "\<not> length ps \<le> positions ! m" using mn inr by (simp add: not_le)
    have c: "check \<longrightarrow> patch_shape ?patch = [int p, int p]" using mn shp by simp
    show ?thesis
      unfolding upt list.map paste_loop.simps Let_def using a b c rec nat1 by auto
  qed
  have "img' ! y ! x =
               (if m \<le> (y div p) * g + x div p \<and> (y div p) * g + x div p < n
                then ps ! (positions ! ((y div p) * g + x div p)) ! (y mod p) ! (x mod p)
                else img ! y ! x)" if y: "y < p * g" and x: "x < p * g" for y x
  proof -
    let ?slot = "(y div p) * g + x div p"
    have xg: "x div p < g" by (rule div_less_grid [OF x])
    have one: "?img1 ! y ! x =
        (if y div p = m div g \<and> x div p = m mod g then ?patch ! (y - m div g * p) ! (x - m mod g * p)
         else img ! y ! x)"
    proof -
      have iy: "(m div g * p \<le> y \<and> y < m div g * p + p) \<longleftrightarrow> y div p = m div g"
        by (rule in_block_iff [OF p])
      have ix: "(m mod g * p \<le> x \<and> x < m mod g * p + p) \<longleftrightarrow> x div p = m mod g"
        by (rule in_block_iff [OF p])
      have "?img1 ! y ! x =
        (if (m div g * p \<le> y \<and> y < m div g * p + p) \<and> (m mod g * p \<le> x \<and> x < m mod g * p + p)
         then ?patch ! (y - m div g * p) ! (x - m mod g * p)
         else img ! y ! x)"
        using y x Suc.prems by (simp add: nth_set_block)
      then show ?thesis unfolding iy ix .
    qed
    have slot: "(y div p = m div g \<and> x div p = m mod g) \<longleftrightarrow> ?slot = m"
      using slot_eq_iff [OF xg, of "y div p" m] by auto
    have sub: "y - (y div p) * p = y mod p" "x - (x div p) * p = x mod p"
      by (simp_all add: minus_div_mult_eq_mod)
    show ?thesis
    proof (cases "?slot = m")
      case True
      then have e: "y div p = m div g" "x div p = m mod g" using slot by auto
      have "y - m div g * p = y mod p" "x - m mod g * p = x mod p"
        using sub e by simp_all
      with True one e px y x mn show ?thesis by simp
    next
      case False
      with one slot px y x show ?thesis by auto
    qed
  qed
  with step l' r' show ?case by blast
qed

lemma block_index_less:
  fixes p g :: nat
  assumes "a < g" "r < p"
  shows "a * p + r < p * g"
proof -
  have "a * p + r < a * p + p" using assms by simp
  also have "\<dots> = (Suc a) * p" by simp
  also have "\<dots> \<le> g * p" using assms(1) by (intro mult_le_mono1) simp
  finally show ?thesis by (simp add: mult.commute)
qed

lemma block_index_div_mod:
  fixes p :: nat
  assumes "r < p"
  shows "(a * p + r) div p = a" "(a * p + r) mod p = r"
  using assms by simp_all

lemma slot_less:
  fixes p g :: nat
  assumes "y < p * g" "x < p * g"
  shows "(y div p) * g + x div p < g * g"
  using block_index_less [OF div_less_grid [OF assms(1)] div_less_grid [OF assms(2)]] .

lemma length_zeros [simp]: "length (zeros h w) = h"
  by (simp add: zeros_def)

lemma nth_zeros [simp]: "y < h \<Longrightarrow> zeros h w ! y = replicate w 0"
  by (simp add: zeros_def)

lemma length_compose [simp]: "length (compose p g ps positions) = p * g"
  by (simp add: compose_def)

lemma nth_compose:
  "y < p * g \<Longrightarrow>
     compose p g ps positions ! y =
       map (\<lambda>x. ps ! (positions ! ((y div p) * g + x div p)) ! (y mod p) ! (x mod p)) [0..<p * g]"
  by (simp add: compose_def)

text \<open>The two loops, run over the whole grid, compute the closed form.\<close>

lemma paste_loop_compose:
  fixes p g :: nat
  assumes p: "0 < p" and g: "0 < g"
    and pos: "g * g \<le> length positions"
    and inr: "\<forall>k < g * g. positions ! k < length ps"
    and shp: "check \<longrightarrow> (\<forall>k < g * g. patch_shape (ps ! (positions ! k)) = [int p, int p])"
  shows "paste_loop check (int p) ps positions (block_corners (int p * int g) (int p)) 0
           (zeros (p * g) (p * g)) = Inr (compose p g ps positions)"
proof -
  have corners: "block_corners (int p * int g) (int p) =
        map (\<lambda>k. (int (k div g) * int p, int (k mod g) * int p)) [0..<g * g]"
    using block_corners_exact [of "int p" "int g"] p by simp
  have len: "length (zeros (p * g) (p * g)) = p * g" by simp
  have rows: "\<forall>y < p * g. length (zeros (p * g) (p * g) ! y) = p * g" by simp
  from paste_loop_blocks [OF p g len rows le_refl pos inr shp, of 0]
  obtain img' where run: "paste_loop check (int p) ps positions
            (map (\<lambda>k. (int (k div g) * int p, int (k mod g) * int p)) [0..<g * g]) 0
            (zeros (p * g) (p * g)) = Inr img'"
    and l': "length img' = p * g" and r': "\<forall>y < p * g. length (img' ! y) = p * g"
    and px: "\<forall>y < p * g. \<forall>x < p * g.
             img' ! y ! x =
               (if 0 \<le> (y div p) * g + x div p \<and> (y div p) * g + x div p < g * g
                then ps ! (positions ! ((y div p) * g + x div p)) ! (y mod p) ! (x mod p)
                else zeros (p * g) (p * g) ! y ! x)"
    by blast
  have "img' = compose p g ps positions"
  proof (rule nth_equalityI)
    show "length img' = length (compose p g ps positions)" using l' by simp
  next
    fix y assume "y < length img'"
    then have y: "y < p * g" using l' by simp
    show "img' ! y = compose p g ps positions ! y"
    proof (rule nth_equalityI)
      show "length (img' ! y) = length (compose p g ps positions ! y)"
        using y r' by (simp add: nth_compose)
    next
      fix x assume "x < length (img' ! y)"
      then have x: "x < p * g" using y r' by simp
      have "(y div p) * g + x div p < g * g" by (rule slot_less [OF y x])
      with px y x show "img' ! y ! x = compose p g ps positions ! y ! x"
        by (simp add: nth_compose)
    qed
  qed
  with run corners show ?thesis by simp
qed

lemma length_tiles [simp]: "length (tiles src p g) = g * g"
  by (simp add: tiles_def)

lemma nth_tiles: "k < g * g \<Longrightarrow> tiles src p g ! k = tile src p g k"
  by (simp add: tiles_def)

lemma length_tile [simp]: "length (tile src p g k) = p"
  by (simp add: tile_def)

lemma length_nth_tile [simp]: "r < p \<Longrightarrow> length (tile src p g k ! r) = p"
  by (simp add: tile_def)

lemma nth_tile:
  "r < p \<Longrightarrow> c < p \<Longrightarrow>
     tile src p g k ! r ! c = resized_L src (p * g) ((k div g) * p + r) ((k mod g) * p + c)"
  by (simp add: tile_def)

lemma concat_img_array_nth:
  assumes "y < t" "x < t"
  shows "concat (img_array src t) ! (y * t + x) = resized_L src t y x"
proof -
  have u: "\<forall>row \<in> set (img_array src t). length row = t"
    by (auto simp: img_array_def)
  have "concat (img_array src t) ! (y * t + x) = img_array src t ! y ! x"
    using assms by (intro nth_concat_uniform [OF u]) simp_all
  with assms show ?thesis by (simp add: nth_img_array)
qed

lemma length_concat_img_array: "length (concat (img_array src t)) = t * t"
proof -
  have u: "\<forall>row \<in> set (img_array src t). length row = t"
    by (auto simp: img_array_def)
  from length_concat_uniform [OF u] show ?thesis by simp
qed

text \<open>The reshape of the resized image cuts it into the tiles of the grid.\<close>

lemma extract_patches_tiles:
  fixes p g :: nat
  assumes p: "0 < p" and g: "0 < g"
  shows "extract_patches p (img_array src (p * g)) = Inr (tiles src p g)"
proof -
  let ?t = "p * g"
  let ?flat = "concat (img_array src ?t)"
  have R: "?t div p = g" using p by simp
  have unit: "g * p * p \<noteq> 0" using p g by simp
  have lf: "length ?flat = (g * p * p) * g"
    by (simp add: length_concat_img_array algebra_simps)
  have m: "length ?flat mod (g * p * p) = 0" unfolding lf by simp
  have C: "length ?flat div (g * p * p) = g" unfolding lf using unit by simp
  have "map (\<lambda>k. map (\<lambda>r. map (\<lambda>c. ?flat ! ((((k div g) * p + r) * g + k mod g) * p + c))
                                      [0..<p]) [0..<p]) [0..<g * g] = tiles src p g"
    unfolding tiles_def tile_def
  proof (intro map_cong refl)
    fix k r c
    assume "k \<in> set [0..<g * g]" "r \<in> set [0..<p]" "c \<in> set [0..<p]"
    then have k: "k < g * g" and r: "r < p" and c: "c < p" by simp_all
    have kd: "k div g < g" using k by (simp add: less_mult_imp_div_less)
    have km: "k mod g < g" using g by simp
    have y: "(k div g) * p + r < ?t" by (rule block_index_less [OF kd r])
    have x: "(k mod g) * p + c < ?t" by (rule block_index_less [OF km c])
    have "(((k div g) * p + r) * g + k mod g) * p + c =
          ((k div g) * p + r) * ?t + ((k mod g) * p + c)"
      by (simp add: algebra_simps)
    then show "?flat ! ((((k div g) * p + r) * g + k mod g) * p + c) =
          resized_L src ?t ((k div g) * p + r) ((k mod g) * p + c)"
      by (simp only: concat_img_array_nth [OF y x])
  qed
  with R unit m C show ?thesis
    by (simp add: extract_patches_def Let_def)
qed

text \<open>Putting the tiles back in their own order gives the resized image again.\<close>

lemma compose_tiles_identity:
  fixes p g :: nat
  assumes p: "0 < p"
  shows "compose p g (tiles src p g) [0..<g * g] = img_array src (p * g)"
  unfolding compose_def img_array_def
proof (intro map_cong refl)
  fix y x
  assume "y \<in> set [0..<p * g]" "x \<in> set [0..<p * g]"
  then have y: "y < p * g" and x: "x < p * g" by simp_all
  let ?k = "(y div p) * g + x div p"
  have k: "?k < g * g" by (rule slot_less [OF y x])
  have xg: "x div p < g" by (rule div_less_grid [OF x])
  have kd: "?k div g = y div p" and km: "?k mod g = x div p" using xg by simp_all
  have "tiles src p g ! ([0..<g * g] ! ?k) ! (y mod p) ! (x mod p) =
        resized_L src (p * g) ((?k div g) * p + y mod p) ((?k mod g) * p + x mod p)"
    using k p by (simp add: nth_tiles nth_tile)
  also have "\<dots> = resized_L src (p * g) y x"
    unfolding kd km by (simp add: algebra_simps)
  finally show "tiles src p g ! ([0..<g * g] ! ?k) ! (y mod p) ! (x mod p) =
        resized_L src (p * g) y x" .
qed

lemma length_shuffle_loop [simp]: "length (shuffle_loop rb i x) = length x"
  by (induction i arbitrary: x) simp_all

lemma is_permutation_shuffle_loop:
  "i < length x \<Longrightarrow> is_permutation n (shuffle_loop rb i x) = is_permutation n x"
proof (induction i arbitrary: x)
  case 0
  then show ?case by simp
next
  case (Suc i)
  let ?j = "rb (Suc i + 1) mod (Suc i + 1)"
  have "?j < Suc i + 1" by (rule mod_less_divisor) simp
  then have j: "?j < length x" using Suc.prems by linarith
  have "is_permutation n (shuffle_loop rb i (exchange (Suc i) ?j x)) =
        is_permutation n (exchange (Suc i) ?j x)"
    using Suc.prems by (intro Suc.IH) simp
  also have "\<dots> = is_permutation n x"
    using Suc.prems j by (rule is_permutation_exchange)
  finally show ?case by simp
qed

lemma is_permutation_upt: "is_permutation n [0..<n]"
  by (simp add: is_permutation_def list_all_iff)

lemma is_permutation_random_shuffle: "is_permutation n (random_shuffle rb [0..<n])"
proof (cases n)
  case 0
  then show ?thesis by (simp add: random_shuffle_def is_permutation_def)
next
  case (Suc m)
  then have "n - 1 < length [0..<n]" by simp
  from is_permutation_shuffle_loop [OF this, of n rb] show ?thesis
    by (simp add: random_shuffle_def is_permutation_upt)
qed

lemma is_permutation_bij:
  assumes "is_permutation n xs"
  shows "bij_betw (\<lambda>i. xs ! i) {0..<n} {0..<n}"
proof -
  from assms have l: "length xs = n" and d: "distinct xs" and b: "\<forall>x \<in> set xs. x < n"
    by (simp_all add: is_permutation_def list_all_iff)
  have sub: "set xs \<subseteq> {0..<n}" using b by auto
  have "card (set xs) = n" using d l by (simp add: distinct_card)
  then have eq: "set xs = {0..<n}" using sub by (simp add: card_subset_eq)
  have "bij_betw (\<lambda>i. xs ! i) {..<length xs} (set xs)" by (rule bij_betw_nth [OF d refl refl])
  with l eq show ?thesis by (simp add: lessThan_atLeast0)
qed

section \<open>Effect of a swap on the registry\<close>

text \<open>The registry after a swap: untouched, or the session with the two slots exchanged.\<close>

lemma swap_patches_idle:
  assumes "find_session session_id reg = Some (sid, s)"
    and "shuffled_positions s = Some positions" and "patches s = Some ps"
    and "\<not> np_array_ok ps \<or> g = 0"
  shows "swap_patches a b session_id g ts fc reg = (Inl SwapFailed, reg)"
  using assms by (auto simp: swap_patches_def)

lemma swap_patches_registry:
  assumes "find_session session_id reg = Some (sid, s)"
    and "shuffled_positions s = Some positions" and "patches s = Some ps"
    and "0 \<le> a" "a < int (length positions)" "0 \<le> b" "b < int (length positions)"
    and "np_array_ok ps" "g \<noteq> 0"
  shows "\<exists>path. snd (swap_patches a b session_id g ts fc reg) =
            put_session sid (s\<lparr> shuffled_positions := Some (exchange (nat a) (nat b) positions),
                                 current_shuffled_image_path := path \<rparr>) reg"
proof -
  let ?s1 = "s\<lparr> shuffled_positions := Some (exchange (nat a) (nat b) positions) \<rparr>"
  have same: "?s1 = s\<lparr> shuffled_positions := Some (exchange (nat a) (nat b) positions),
                        current_shuffled_image_path := current_shuffled_image_path s \<rparr>"
    by simp
  let ?r = "paste_loop True (512 div g) ps (exchange (nat a) (nat b) positions)
              (block_corners (512 div g * g) (512 div g)) 0
              (zeros (nat (512 div g * g)) (nat (512 div g * g)))"
  consider (zero) "512 div g = 0" | (err) e where "512 div g \<noteq> 0" "?r = Inl e"
    | (nofile) img where "512 div g \<noteq> 0" "?r = Inr img" "\<not> fc"
    | (ok) img where "512 div g \<noteq> 0" "?r = Inr img" "fc"
    by (cases ?r) auto
  then show ?thesis
  proof cases
    case zero
    with assms have "snd (swap_patches a b session_id g ts fc reg) = put_session sid ?s1 reg"
      by (simp add: swap_patches_def Let_def)
    with same show ?thesis by metis
  next
    case err
    with assms have "snd (swap_patches a b session_id g ts fc reg) = put_session sid ?s1 reg"
      by (simp add: swap_patches_def Let_def)
    with same show ?thesis by metis
  next
    case nofile
    with assms have "snd (swap_patches a b session_id g ts fc reg) = put_session sid ?s1 reg"
      by (simp add: swap_patches_def Let_def)
    with same show ?thesis by metis
  next
    case ok
    with assms have "snd (swap_patches a b session_id g ts fc reg) =
        put_session sid (?s1\<lparr> current_shuffled_image_path :=
            Some (''app/static/images/temp/'' @ temp_name ''updated'' sid (current_level s) ts) \<rparr>) reg"
      by (simp add: swap_patches_def Let_def)
    then show ?thesis by auto
  qed
qed

section \<open>A successful shuffle, step by step\<close>

text \<open>
  When the session has an image of its level in the catalog, the file is there and
  the grid size lies between 1 and 512, the shuffle stores the tiles, the identity as
  the original order and the shuffled identity as the current order; the answer and
  the path recorded depend on whether the rendered file could be written.
\<close>

lemma shuffle_image_run:
  assumes f: "find_session session_id reg = Some (sid, s)"
    and name: "current_image_name s = Some name"
    and lvl: "map_of image_metadata (current_level s) = Some level_data"
    and img: "map_of level_data name \<noteq> None"
    and src: "images (image_path (current_level s) name) = Some src"
    and g: "1 \<le> g" "g \<le> 512"
  shows "shuffle_image session_id g image_metadata images rb ts fc reg =
     ((if fc
       then Inr \<lparr> shuffled_image_url =
                    ''/static/images/temp/'' @ temp_name ''shuffled'' sid (current_level s) ts,
                  answer_grid_size = g,
                  shuffled_image =
                    compose (nat (512 div g)) (nat g) (tiles src (nat (512 div g)) (nat g))
                      (random_shuffle rb [0..<nat g * nat g]) \<rparr>
       else Inl FailedToCreateImage),
      put_session sid
        (s\<lparr> patches := Some (tiles src (nat (512 div g)) (nat g)),
             original_positions := Some [0..<nat g * nat g],
             shuffled_positions := Some (random_shuffle rb [0..<nat g * nat g]),
             current_shuffled_image_path :=
               (if fc
                then Some (''app/static/images/temp/'' @
                             temp_name ''shuffled'' sid (current_level s) ts)
                else current_shuffled_image_path s) \<rparr>)
        reg)"
proof -
  let ?p = "512 div g"
  let ?P = "nat ?p" and ?G = "nat g"
  have "g div g \<le> 512 div g" using g by (intro zdiv_mono1) auto
  then have p1: "1 \<le> ?p" using g by simp
  have P: "0 < ?P" and G: "0 < ?G" using p1 g by simp_all
  have t: "nat (?p * g) = ?P * ?G" using p1 g by (simp add: nat_mult_distrib)
  have ip: "int ?P = ?p" and ig: "int ?G = g" using p1 g by simp_all
  let ?img = "img_array src (?P * ?G)"
  have h: "length ?img = ?P * ?G" by simp
  have w: "length (hd ?img) = ?P * ?G" using P G by (simp add: hd_img_array)
  have ex: "extract_patches ?P ?img = Inr (tiles src ?P ?G)"
    by (rule extract_patches_tiles [OF P G])
  let ?sh = "random_shuffle rb [0..<?G * ?G]"
  have perm: "is_permutation (?G * ?G) ?sh" by (rule is_permutation_random_shuffle)
  then have pl: "?G * ?G \<le> length ?sh"
    and pr: "\<forall>k < ?G * ?G. ?sh ! k < length (tiles src ?P ?G)"
    by (simp_all add: is_permutation_def list_all_length)
  have "paste_loop False (int ?P) (tiles src ?P ?G) ?sh
          (block_corners (int ?P * int ?G) (int ?P)) 0 (zeros (?P * ?G) (?P * ?G)) =
        Inr (compose ?P ?G (tiles src ?P ?G) ?sh)"
    by (rule paste_loop_compose [OF P G pl pr]) simp
  then have paste: "paste_loop False ?p (tiles src ?P ?G) ?sh
          (List.product (py_range (?p * g) ?p) (py_range (?p * g) ?p)) 0
          (zeros (?P * ?G) (?P * ?G)) =
        Inr (compose ?P ?G (tiles src ?P ?G) ?sh)"
    unfolding ip ig block_corners_def .
  have ih: "int (?P * ?G) = ?p * g" using ip ig by (metis of_nat_mult)
  have g0: "g \<noteq> 0" and pp: "\<not> ?p \<le> 0" using g p1 by simp_all
  show ?thesis
    using f name lvl img src g0 pp g
    by (simp add: shuffle_image_def Let_def t h w ex ih paste)
qed

section \<open>The invariant holds in every reachable registry\<close>

lemma registry_ok_put:
  "registry_ok reg \<Longrightarrow> arrangement_ok s \<Longrightarrow> registry_ok (put_session sid s reg)"
  by (auto simp: registry_ok_def put_session_def)

lemma registry_ok_lookup:
  "registry_ok reg \<Longrightarrow> fmlookup (game_sessions reg) sid = Some s \<Longrightarrow> arrangement_ok s"
  by (auto simp: registry_ok_def)

lemma registry_ok_find:
  "registry_ok reg \<Longrightarrow> find_session session_id reg = Some (sid, s) \<Longrightarrow> arrangement_ok s"
  using find_session_SomeD registry_ok_lookup by blast

lemma arrangement_ok_new_session: "arrangement_ok new_session"
  by (simp add: arrangement_ok_def new_session_def)

lemma arrangement_ok_path [simp]:
  "arrangement_ok (s\<lparr> current_shuffled_image_path := path \<rparr>) = arrangement_ok s"
  by (simp add: arrangement_ok_def)

lemma arrangement_ok_image_name [simp]:
  "arrangement_ok (s\<lparr> current_image_name := name \<rparr>) = arrangement_ok s"
  by (simp add: arrangement_ok_def)

lemma arrangement_ok_start_time [simp]:
  "arrangement_ok (s\<lparr> start_time := t \<rparr>) = arrangement_ok s"
  by (simp add: arrangement_ok_def)

lemma arrangement_ok_fresh:
  "arrangement_ok (s\<lparr> patches := Some ps,
                       original_positions := Some [0..<length ps],
                       shuffled_positions := Some (random_shuffle rb [0..<length ps]) \<rparr>)"
  by (simp add: arrangement_ok_def is_permutation_random_shuffle)

lemma arrangement_ok_exchange:
  assumes "arrangement_ok s" "shuffled_positions s = Some positions"
    and "i < length positions" "j < length positions"
  shows "arrangement_ok (s\<lparr> shuffled_positions := Some (exchange i j positions) \<rparr>)"
  using assms by (auto simp: arrangement_ok_def is_permutation_exchange split: option.splits)

lemma registry_ok_cleanup:
  "registry_ok reg \<Longrightarrow> registry_ok (cleanup_expired_sessions now reg)"
  by (auto simp: registry_ok_def cleanup_expired_sessions_def Let_def)

lemma registry_ok_get_or_create:
  "registry_ok reg \<Longrightarrow> registry_ok (snd (get_or_create_session session_id now uuid4 reg))"
  by (auto simp: registry_ok_def get_or_create_session_def Let_def arrangement_ok_new_session
           split: option.splits)

lemma registry_ok_get_image:
  assumes "registry_ok reg"
  shows "registry_ok (snd (get_image session_id now uuid4 choice image_metadata images reg))"
proof -
  let ?reg0 = "cleanup_expired_sessions now reg"
  obtain sid reg1 where r: "get_or_create_session session_id now uuid4 ?reg0 = (sid, reg1)"
    by (cases "get_or_create_session session_id now uuid4 ?reg0")
  have ok1: "registry_ok reg1"
    using registry_ok_get_or_create [OF registry_ok_cleanup [OF assms, of now], of session_id now uuid4] r
    by simp
  show ?thesis
  proof (cases "fmlookup (game_sessions reg1) sid")
    case None
    with r ok1 show ?thesis by (simp add: get_image_def Let_def)
  next
    case (Some s)
    then have oks: "arrangement_ok s" using ok1 registry_ok_lookup by blast
    show ?thesis
      using r Some ok1 oks
      by (auto simp: get_image_def Let_def registry_ok_put split: option.splits prod.splits)
  qed
qed

lemma registry_ok_shuffle_image:
  assumes "registry_ok reg"
  shows "registry_ok (snd (shuffle_image session_id g image_metadata images rb ts fc reg))"
  using assms
  by (auto simp: shuffle_image_def Let_def registry_ok_put arrangement_ok_fresh
           split: option.splits sum.splits prod.splits)

lemma registry_ok_swap_patches:
  assumes "registry_ok reg"
  shows "registry_ok (snd (swap_patches a b session_id g ts fc reg))"
proof (cases "find_session session_id reg")
  case None
  with assms show ?thesis by (simp add: swap_patches_def)
next
  case (Some pr)
  obtain sid s where pr: "pr = (sid, s)" by (cases pr)
  have oks: "arrangement_ok s" using assms Some pr registry_ok_find by blast
  show ?thesis
  proof (cases "shuffled_positions s")
    case None
    with assms Some pr show ?thesis by (simp add: swap_patches_def)
  next
    case sp: (Some positions)
    show ?thesis
    proof (cases "patches s")
      case None
      with assms Some pr sp show ?thesis by (simp add: swap_patches_def)
    next
      case ps: (Some pl)
      show ?thesis
      proof (cases "0 \<le> a \<and> a < int (length positions) \<and> 0 \<le> b \<and> b < int (length positions)")
        case False
        with assms Some pr sp ps show ?thesis by (auto simp: swap_patches_def Let_def)
      next
        case True
        then have ex: "arrangement_ok (s\<lparr> shuffled_positions :=
                          Some (exchange (nat a) (nat b) positions) \<rparr>)"
          using oks sp by (intro arrangement_ok_exchange) auto
        show ?thesis
        proof (cases "\<not> np_array_ok pl \<or> g = 0")
          case True
          with Some pr sp ps have "swap_patches a b session_id g ts fc reg = (Inl SwapFailed, reg)"
            by (intro swap_patches_idle) auto
          with assms show ?thesis by simp
        next
          case False
          with swap_patches_registry [of session_id reg sid s positions pl a b g ts fc]
            Some pr sp ps True
          obtain path where "snd (swap_patches a b session_id g ts fc reg) =
              put_session sid (s\<lparr> shuffled_positions := Some (exchange (nat a) (nat b) positions),
                                   current_shuffled_image_path := path \<rparr>) reg"
            by auto
          with assms ex show ?thesis by (simp add: registry_ok_put)
        qed
      qed
    qed
  qed
qed

lemma registry_ok_next_level:
  assumes "registry_ok reg"
  shows "registry_ok (snd (next_level session_id image_metadata reg))"
  using assms
  by (auto simp: next_level_def Let_def registry_ok_put arrangement_ok_def
           split: option.splits prod.splits)

text \<open>Every registry the server can reach holds well-formed arrangements only.\<close>

lemma reachable_registry_ok: "reachable reg \<Longrightarrow> registry_ok reg"
proof (induction rule: reachable.induct)
  case start
  show ?case by (simp add: registry_ok_def)
next
  case (image reg session_id now uuid4 choice image_metadata images)
  then show ?case by (intro registry_ok_get_image)
next
  case (shuffle reg session_id grid_size image_metadata images randbelow timestamp file_created)
  then show ?case by (intro registry_ok_shuffle_image)
next
  case (swap reg index1 index2 session_id grid_size timestamp file_created)
  then show ?case by (intro registry_ok_swap_patches)
next
  case (advance reg session_id image_metadata)
  then show ?case by (intro registry_ok_next_level)
qed

section \<open>Facts about the running example\<close>

lemma random_shuffle_zero_4: "random_shuffle zero_draws [0..<4] = [1, 2, 3, 0]"
  by code_simp

lemma example_registry_image:
  "snd (get_image None 0 ''s1'' 0 example_catalog example_images
          \<lparr> game_sessions = fmempty, session_timeouts = fmempty \<rparr>) = example_registry"
  by (simp add: get_image_def cleanup_expired_sessions_def expired_sessions_def
        get_or_create_session_def Let_def example_catalog_def example_images_def
        image_path_def put_session_def new_session_def example_registry_def example_session_def
        timedelta_minutes_def SESSION_TIMEOUT_MINUTES_def)

lemma example_registry_reachable: "reachable example_registry"
  using reachable.image [OF reachable.start, of None 0 "''s1''" 0 example_catalog example_images]
  by (simp only: example_registry_image)

lemma example_puzzle_reachable: "reachable (example_puzzle g)"
  unfolding example_puzzle_def by (rule reachable.shuffle [OF example_registry_reachable])

lemma example_find: "find_session (Some ''s1'') example_registry = Some (''s1'', example_session)"
  by (simp add: find_session_def example_registry_def)

lemma example_shuffle_run:
  assumes "1 \<le> g" "g \<le> 512"
  shows "shuffle_image (Some ''s1'') g example_catalog example_images rb ts fc example_registry =
     ((if fc
       then Inr \<lparr> shuffled_image_url =
                    ''/static/images/temp/'' @ temp_name ''shuffled'' ''s1'' ''level_1'' ts,
                  answer_grid_size = g,
                  shuffled_image =
                    compose (nat (512 div g)) (nat g)
                      (tiles (black_image 1000) (nat (512 div g)) (nat g))
                      (random_shuffle rb [0..<nat g * nat g]) \<rparr>
       else Inl FailedToCreateImage),
      put_session ''s1''
        (example_session
           \<lparr> patches := Some (tiles (black_image 1000) (nat (512 div g)) (nat g)),
             original_positions := Some [0..<nat g * nat g],
             shuffled_positions := Some (random_shuffle rb [0..<nat g * nat g]),
             current_shuffled_image_path :=
               (if fc
                then Some (''app/static/images/temp/'' @
                             temp_name ''shuffled'' ''s1'' ''level_1'' ts)
                else None) \<rparr>)
        example_registry)"
proof -
  have n: "current_image_name example_session = Some ''scan.png''"
    and l: "current_level example_session = ''level_1''"
    and pth: "current_shuffled_image_path example_session = None"
    by (simp_all add: example_session_def new_session_def)
  have c: "map_of example_catalog (current_level example_session) =
             Some [(''scan.png'', \<lparr> organ = ''Unknown'', modality = ''Unknown'', questions = [] \<rparr>)]"
    by (simp add: l example_catalog_def)
  have i: "map_of [(''scan.png'', \<lparr> organ = ''Unknown'', modality = ''Unknown'', questions = [] \<rparr>)]
             ''scan.png'' \<noteq> None" by simp
  have f: "example_images (image_path (current_level example_session) ''scan.png'') =
             Some (black_image 1000)"
    by (simp add: l example_images_def image_path_def)
  from shuffle_image_run [where images = example_images and rb = rb and ts = ts and fc = fc,
      OF example_find n c i f assms]
  show ?thesis by (simp only: l pth)
qed

text \<open>The example session after a shuffle on a grid of 2 by 2.\<close>

lemma example_puzzle_2:
  "find_session (Some ''s1'') (example_puzzle 2) =
     Some (''s1'',
           example_session
             \<lparr> patches := Some (tiles (black_image 1000) 256 2),
               original_positions := Some [0, 1, 2, 3],
               shuffled_positions := Some [1, 2, 3, 0],
               current_shuffled_image_path :=
                 Some (''app/static/images/temp/'' @ temp_name ''shuffled'' ''s1'' ''level_1'' 0) \<rparr>)"
proof -
  have u: "[0..<4] = [0, 1, 2, 3::nat]" by code_simp
  have "(2::nat) * 2 = 4" by simp
  with example_shuffle_run [of 2 zero_draws 0 True] random_shuffle_zero_4 u
  have "example_puzzle 2 = put_session ''s1''
        (example_session
           \<lparr> patches := Some (tiles (black_image 1000) 256 2),
             original_positions := Some [0, 1, 2, 3],
             shuffled_positions := Some [1, 2, 3, 0],
             current_shuffled_image_path :=
               Some (''app/static/images/temp/'' @ temp_name ''shuffled'' ''s1'' ''level_1'' 0) \<rparr>)
        example_registry"
    by (simp add: example_puzzle_def)
  then show ?thesis using find_session_put [OF example_find] by simp
qed

section \<open>Validator\<close>

text \<open>
  Claim C1. In every registry the server can reach, for every session that has an
  arrangement, \<open>validate_puzzle\<close> answers \<open>true\<close> if the current order is the
  identity (\<open>current[i] = i\<close> for every slot \<open>i\<close>) and \<open>false\<close> if it is not.
\<close>

theorem validate_iff_identity:
  assumes "reachable reg"
    and "find_session session_id reg = Some (sid, s)"
    and "shuffled_positions s = Some current"
  shows "validate_puzzle session_id reg = Inr (\<forall>i < length current. current ! i = i)"
proof -
  have ok: "arrangement_ok s"
    using reachable_registry_ok [OF assms(1)] assms(2) by (rule registry_ok_find)
  with assms(3) have o: "original_positions s = Some [0..<length current]"
    by (auto simp: arrangement_ok_def is_permutation_def split: option.splits)
  have "(current = [0..<length current]) \<longleftrightarrow> (\<forall>i < length current. current ! i = i)"
  proof
    assume e: "current = [0..<length current]"
    show "\<forall>i < length current. current ! i = i"
    proof (intro allI impI)
      fix i assume "i < length current"
      then have "[0..<length current] ! i = i" by simp
      then show "current ! i = i" by (metis e)
    qed
  next
    assume "\<forall>i < length current. current ! i = i"
    then show "current = [0..<length current]"
      by (intro nth_equalityI) simp_all
  qed
  with assms(2,3) o show ?thesis by (simp add: validate_puzzle_def)
qed

text \<open>
  The example session after its shuffle holds the order \<open>[1, 2, 3, 0]\<close>, which is
  not the identity: the validator answers \<open>false\<close>.
\<close>

theorem validate_iff_identity_witness:
  "reachable (example_puzzle 2) \<and>
   validate_puzzle (Some ''s1'') (example_puzzle 2) =
     Inr (\<forall>i < length [1, 2, 3, 0::nat]. [1, 2, 3, 0::nat] ! i = i) \<and>
   validate_puzzle (Some ''s1'') (example_puzzle 2) = Inr False"
proof -
  let ?s = "example_session
             \<lparr> patches := Some (tiles (black_image 1000) 256 2),
               original_positions := Some [0, 1, 2, 3],
               shuffled_positions := Some [1, 2, 3, 0],
               current_shuffled_image_path :=
                 Some (''app/static/images/temp/'' @ temp_name ''shuffled'' ''s1'' ''level_1'' 0) \<rparr>"
  have sp: "shuffled_positions ?s = Some [1, 2, 3, 0]" by simp
  note v = validate_iff_identity [OF example_puzzle_reachable example_puzzle_2 sp]
  have "\<not> (\<forall>i < length [1, 2, 3, 0::nat]. [1, 2, 3, 0::nat] ! i = i)"
    by (auto intro: exI [of _ 0])
  with v example_puzzle_reachable show ?thesis by simp
qed

section \<open>Swap engine\<close>



section \<open>Swaps on a tiled arrangement\<close>

lemma patch_size_positive_iff:
  fixes g :: int
  shows "0 < 512 div g \<longleftrightarrow> 1 \<le> g \<and> g \<le> 512"
proof
  assume a: "0 < 512 div g"
  have "\<not> g < 0"
  proof
    assume "g < 0"
    then have "512 div g \<le> 0" by (intro div_nonneg_neg_le0) simp
    with a show False by simp
  qed
  moreover have "g \<noteq> 0" using a by auto
  moreover have "\<not> 512 < g"
  proof
    assume "512 < g"
    then have "512 div g = 0" by (simp add: div_pos_pos_trivial)
    with a show False by simp
  qed
  ultimately show "1 \<le> g \<and> g \<le> 512" by simp
next
  assume b: "1 \<le> g \<and> g \<le> 512"
  then have "g div g \<le> 512 div g" by (intro zdiv_mono1) auto
  with b show "0 < 512 div g" by simp
qed

lemma shuffle_image_InrD:
  assumes "fst (shuffle_image session_id g image_metadata images rb ts fc reg) = Inr ans"
  shows "\<exists>sid s name level_data src.
           find_session session_id reg = Some (sid, s) \<and>
           current_image_name s = Some name \<and>
           map_of image_metadata (current_level s) = Some level_data \<and>
           map_of level_data name \<noteq> None \<and>
           images (image_path (current_level s) name) = Some src \<and>
           1 \<le> g \<and> g \<le> 512 \<and> fc"
proof -
  from assms obtain sid s where f: "find_session session_id reg = Some (sid, s)"
    by (cases "find_session session_id reg") (auto simp: shuffle_image_def)
  from assms f obtain name where n: "current_image_name s = Some name"
    by (cases "current_image_name s") (auto simp: shuffle_image_def)
  from assms f n obtain level_data where l: "map_of image_metadata (current_level s) = Some level_data"
    by (cases "map_of image_metadata (current_level s)") (auto simp: shuffle_image_def)
  from assms f n l have i: "map_of level_data name \<noteq> None" and g0: "g \<noteq> 0"
    by (auto simp: shuffle_image_def split: if_splits)
  from assms f n l i g0 obtain src where s: "images (image_path (current_level s) name) = Some src"
    by (cases "images (image_path (current_level s) name)") (auto simp: shuffle_image_def Let_def)
  from assms f n l i g0 s have p: "0 < 512 div g"
    by (auto simp: shuffle_image_def Let_def split: if_splits)
  then have g: "1 \<le> g" "g \<le> 512" by (simp_all add: patch_size_positive_iff)
  have fc
  proof (rule ccontr)
    assume "\<not> fc"
    then have "fst (shuffle_image session_id g image_metadata images rb ts fc reg) =
        Inl FailedToCreateImage"
      using shuffle_image_run [where images = images and rb = rb and ts = ts and fc = fc, OF f n l i s g]
      by simp
    with assms show False by simp
  qed
  with f n l i s g show ?thesis by blast
qed

lemma tiled_after_shuffle:
  assumes "1 \<le> g" "g \<le> 512"
  shows "tiled g (s\<lparr> patches := Some (tiles src (nat (512 div g)) (nat g)),
                     original_positions := orig, shuffled_positions := cur,
                     current_shuffled_image_path := path \<rparr>)"
proof -
  have "nat (g * g) = nat g * nat g" using assms by (simp add: nat_mult_distrib)
  moreover have "list_all (\<lambda>p. length p = nat (512 div g) \<and>
                         list_all (\<lambda>row. length row = nat (512 div g)) p)
                   (tiles src (nat (512 div g)) (nat g))"
    by (auto simp: list_all_iff tiles_def tile_def)
  ultimately show ?thesis using assms by (simp add: tiled_def)
qed

lemma tiled_np_array_ok:
  assumes "tiled g s" "patches s = Some ps"
  shows "np_array_ok ps"
proof -
  let ?P = "nat (512 div g)"
  from assms have all: "\<forall>p \<in> set ps. length p = ?P \<and> (\<forall>row \<in> set p. length row = ?P)"
    by (auto simp: tiled_def list_all_iff)
  show ?thesis
  proof (cases ps)
    case Nil
    then show ?thesis by (simp add: np_array_ok_def)
  next
    case (Cons q qs)
    then have hq: "hd ps = q" and q: "q \<in> set ps" by simp_all
    have lq: "length q = ?P" using all q by blast
    have rows: "hd ps \<noteq> [] \<longrightarrow> length (hd (hd ps)) = ?P"
      using all q hq by (metis hd_in_set)
    show ?thesis
      unfolding np_array_ok_def using all hq lq rows
      by (auto simp: list_all_iff)
  qed
qed

lemma tiled_patch_shape:
  assumes "tiled g s" "patches s = Some ps" "k < length ps"
  shows "patch_shape (ps ! k) = [512 div g, 512 div g]"
proof -
  have g: "1 \<le> g" "g \<le> 512" using assms(1) by (simp_all add: tiled_def)
  then have p: "0 < 512 div g" by (simp add: patch_size_positive_iff)
  let ?P = "nat (512 div g)"
  from assms have all: "\<forall>p \<in> set ps. length p = ?P \<and> (\<forall>row \<in> set p. length row = ?P)"
    by (auto simp: tiled_def list_all_iff)
  have m: "ps ! k \<in> set ps" using assms(3) by simp
  then have l: "length (ps ! k) = ?P" using all by blast
  then have ne: "ps ! k \<noteq> []" using p by auto
  then have "hd (ps ! k) \<in> set (ps ! k)" by simp
  then have "length (hd (ps ! k)) = ?P" using all m by blast
  with l ne p show ?thesis by (simp add: patch_shape_def)
qed


lemma arrangement_positions:
  assumes "arrangement_ok s" "shuffled_positions s = Some positions" "patches s = Some ps"
  shows "is_permutation (length ps) positions \<and> original_positions s = Some [0..<length ps]"
  using assms by (auto simp: arrangement_ok_def split: option.splits)

text \<open>
  A swap with both indices in range, on an arrangement cut with the grid size that is
  configured now.
\<close>

lemma swap_patches_run:
  assumes f: "find_session session_id reg = Some (sid, s)"
    and ok: "arrangement_ok s" and t: "tiled g s"
    and sp: "shuffled_positions s = Some positions" and ps: "patches s = Some ps"
    and r: "0 \<le> a" "a < int (length positions)" "0 \<le> b" "b < int (length positions)"
  shows "swap_patches a b session_id g ts fc reg =
     ((if fc
       then Inr (''/static/images/temp/'' @ temp_name ''updated'' sid (current_level s) ts,
                 compose (nat (512 div g)) (nat g) ps (exchange (nat a) (nat b) positions))
       else Inl FailedToCreateImage),
      put_session sid
        (s\<lparr> shuffled_positions := Some (exchange (nat a) (nat b) positions),
             current_shuffled_image_path :=
               (if fc
                then Some (''app/static/images/temp/'' @
                             temp_name ''updated'' sid (current_level s) ts)
                else current_shuffled_image_path s) \<rparr>)
        reg)"
proof -
  let ?p = "512 div g"
  let ?P = "nat ?p" and ?G = "nat g"
  let ?pos = "exchange (nat a) (nat b) positions"
  have g: "1 \<le> g" "g \<le> 512" using t by (simp_all add: tiled_def)
  then have p: "0 < ?p" by (simp add: patch_size_positive_iff)
  have P: "0 < ?P" and G: "0 < ?G" using p g by simp_all
  have ip: "int ?P = ?p" and ig: "int ?G = g" using p g by simp_all
  have tt: "nat (?p * g) = ?P * ?G" using p g by (simp add: nat_mult_distrib)
  have lps: "length ps = ?G * ?G" using t ps g by (simp add: tiled_def nat_mult_distrib)
  have perm: "is_permutation (length ps) positions"
    using arrangement_positions [OF ok sp ps] by simp
  have ab: "nat a < length positions" "nat b < length positions" using r by simp_all
  have perm': "is_permutation (length ps) ?pos"
    using perm ab by (simp add: is_permutation_exchange)
  then have pl: "?G * ?G \<le> length ?pos"
    and pr: "\<forall>k < ?G * ?G. ?pos ! k < length ps"
    using lps by (simp_all add: is_permutation_def list_all_length)
  have shp: "True \<longrightarrow> (\<forall>k < ?G * ?G. patch_shape (ps ! (?pos ! k)) = [int ?P, int ?P])"
    using pr tiled_patch_shape [OF t ps] ip by simp
  have "paste_loop True (int ?P) ps ?pos (block_corners (int ?P * int ?G) (int ?P)) 0
          (zeros (?P * ?G) (?P * ?G)) = Inr (compose ?P ?G ps ?pos)"
    by (rule paste_loop_compose [OF P G pl pr shp])
  then have paste: "paste_loop True ?p ps ?pos (block_corners (?p * g) ?p) 0
          (zeros (?P * ?G) (?P * ?G)) = Inr (compose ?P ?G ps ?pos)"
    unfolding ip ig .
  have np: "np_array_ok ps" by (rule tiled_np_array_ok [OF t ps])
  have g0: "g \<noteq> 0" and p0: "?p \<noteq> 0" using g p by simp_all
  have nr: "\<not> (a < 0 \<or> b < 0 \<or> int (length positions) \<le> a \<or> int (length positions) \<le> b)"
    using r by simp
  show ?thesis
    using f sp ps np g0 p0 nr
    by (simp add: swap_patches_def Let_def tt paste)
qed

text \<open>
  The same swap after the configured grid size has changed to one that gives another
  patch size: the order is exchanged, then the shape check of the first patch raises
  \<open>ValueError\<close>, and the answer is status 500.
\<close>

lemma paste_loop_first_shape:
  assumes "cs \<noteq> []" "positions \<noteq> []" "positions ! 0 < length ps"
    and "patch_shape (ps ! (positions ! 0)) \<noteq> [p, p]"
  shows "paste_loop True p ps positions cs 0 img = Inl ValueError"
proof -
  obtain i j rest where "cs = (i, j) # rest" using assms(1) by (cases cs) auto
  with assms show ?thesis by simp
qed

lemma swap_patches_other_grid:
  assumes f: "find_session session_id reg = Some (sid, s)"
    and ok: "arrangement_ok s" and t: "tiled g s"
    and sp: "shuffled_positions s = Some positions" and ps: "patches s = Some ps"
    and r: "0 \<le> a" "a < int (length positions)" "0 \<le> b" "b < int (length positions)"
    and g': "1 \<le> g'" "g' \<le> 512" "512 div g' \<noteq> 512 div g"
  shows "swap_patches a b session_id g' ts fc reg =
     (Inl SwapFailed,
      put_session sid (s\<lparr> shuffled_positions := Some (exchange (nat a) (nat b) positions) \<rparr>) reg)"
proof -
  let ?p = "512 div g'"
  let ?pos = "exchange (nat a) (nat b) positions"
  have p: "0 < ?p" using g' by (simp add: patch_size_positive_iff)
  have perm: "is_permutation (length ps) positions"
    using arrangement_positions [OF ok sp ps] by simp
  have ab: "nat a < length positions" "nat b < length positions" using r by simp_all
  have perm': "is_permutation (length ps) ?pos"
    using perm ab by (simp add: is_permutation_exchange)
  have "0 < length positions" using ab(1) by (rule order_le_less_trans [OF le0])
  then have l0: "0 < length ?pos" by (simp only: exchange_length)
  then have ne: "?pos \<noteq> []" by (metis length_greater_0_conv)
  have "\<forall>k < length ?pos. ?pos ! k < length ps"
    using perm' by (simp add: is_permutation_def list_all_length)
  with l0 have first: "?pos ! 0 < length ps" by blast
  have "patch_shape (ps ! (?pos ! 0)) = [512 div g, 512 div g]"
    by (rule tiled_patch_shape [OF t ps first])
  then have shape: "patch_shape (ps ! (?pos ! 0)) \<noteq> [?p, ?p]" using g'(3) by simp
  have "length (block_corners (?p * g') ?p) = nat g' * nat g'"
    using block_corners_exact [of ?p g'] p g' by simp
  then have cs: "block_corners (?p * g') ?p \<noteq> []" using g' by auto
  have paste: "paste_loop True ?p ps ?pos (block_corners (?p * g') ?p) 0 img = Inl ValueError"
    for img by (rule paste_loop_first_shape [OF cs ne first shape])
  have np: "np_array_ok ps" by (rule tiled_np_array_ok [OF t ps])
  have g0: "g' \<noteq> 0" and p0: "?p \<noteq> 0" using g' p by simp_all
  have nr: "\<not> (a < 0 \<or> b < 0 \<or> int (length positions) \<le> a \<or> int (length positions) \<le> b)"
    using r by simp
  show ?thesis
    using f sp ps np g0 p0 nr
    by (simp add: swap_patches_def Let_def paste)
qed

lemma swap_patches_positions:
  assumes f: "find_session session_id reg = Some (sid, s)"
    and sp: "shuffled_positions s = Some cur"
  shows "\<exists>s'. find_session session_id (snd (swap_patches a b session_id g ts fc reg)) = Some (sid, s') \<and>
            original_positions s' = original_positions s \<and>
            patches s' = patches s \<and>
            (shuffled_positions s' = Some cur \<or>
             0 \<le> a \<and> a < int (length cur) \<and> 0 \<le> b \<and> b < int (length cur) \<and>
             shuffled_positions s' = Some (exchange (nat a) (nat b) cur))"
proof -
  have same: "?thesis" if "snd (swap_patches a b session_id g ts fc reg) = reg"
    using that f sp by auto
  show ?thesis
  proof (cases "patches s")
    case None
    with f sp have "swap_patches a b session_id g ts fc reg = (Inl NoPuzzleToSwap, reg)"
      by (simp add: swap_patches_def)
    then show ?thesis by (intro same) simp
  next
    case ps: (Some pl)
    show ?thesis
    proof (cases "\<not> np_array_ok pl \<or> g = 0")
      case True
      with f sp ps have "swap_patches a b session_id g ts fc reg = (Inl SwapFailed, reg)"
        by (intro swap_patches_idle) auto
      then show ?thesis by (intro same) simp
    next
      case ok: False
      show ?thesis
      proof (cases "0 \<le> a \<and> a < int (length cur) \<and> 0 \<le> b \<and> b < int (length cur)")
        case False
        with f sp ps ok have "swap_patches a b session_id g ts fc reg = (Inl InvalidIndices, reg)"
          by (auto simp: swap_patches_def Let_def)
        then show ?thesis by (intro same) simp
      next
        case True
        with swap_patches_registry [of session_id reg sid s cur pl a b g ts fc] f sp ps ok
        obtain path where e: "snd (swap_patches a b session_id g ts fc reg) =
              put_session sid (s\<lparr> shuffled_positions := Some (exchange (nat a) (nat b) cur),
                                   current_shuffled_image_path := path \<rparr>) reg"
          by auto
        show ?thesis
          unfolding e using find_session_put [OF f] True by simp
      qed
    qed
  qed
qed

lemma example_arrangement_found:
  "find_session (Some ''s1'') (example_puzzle 2) = Some (''s1'', example_arrangement)"
  unfolding example_arrangement_def by (rule example_puzzle_2)

lemma example_arrangement_ok: "arrangement_ok example_arrangement"
  using reachable_registry_ok [OF example_puzzle_reachable] example_arrangement_found
  by (rule registry_ok_find)

lemma example_arrangement_tiled: "tiled 2 example_arrangement"
  unfolding example_arrangement_def
  using tiled_after_shuffle [where g = 2 and s = example_session and src = "black_image 1000"]
  by simp

lemma example_arrangement_fields:
  "shuffled_positions example_arrangement = Some [1, 2, 3, 0]"
  "original_positions example_arrangement = Some [0, 1, 2, 3]"
  "patches example_arrangement = Some (tiles (black_image 1000) 256 2)"
  "current_level example_arrangement = ''level_1''"
  by (simp_all add: example_arrangement_def example_session_def new_session_def)

section \<open>The current order is a permutation\<close>

text \<open>
  Claim C2. The current order is always a permutation of \<open>0..N\<^sup>2 - 1\<close> of the length
  of the original order. In three parts: in every registry the server can reach, the
  current order of a session permutes \<open>[0..<n]\<close>, where the original order is
  \<open>[0..<n]\<close>, and is a bijection on the slots; a shuffle that succeeds with the
  grid size \<open>g\<close> leaves the original order \<open>[0..<g\<^sup>2]\<close> and a permutation of it;
  and a swap, whatever it answers, turns a permutation of \<open>[0..<n]\<close> into a
  permutation of \<open>[0..<n]\<close> and keeps the original order.
\<close>

theorem arrangement_is_permutation:
  "(reachable reg \<and> fmlookup (game_sessions reg) sid = Some s \<and>
      shuffled_positions s = Some current \<longrightarrow>
      original_positions s = Some [0..<length current] \<and>
      is_permutation (length current) current \<and>
      bij_betw (\<lambda>i. current ! i) {0..<length current} {0..<length current}) \<and>
   (fst (shuffle_image session_id g image_metadata images rb ts fc reg) = Inr ans \<longrightarrow>
      (\<exists>sid' s' cur.
         find_session session_id
           (snd (shuffle_image session_id g image_metadata images rb ts fc reg)) = Some (sid', s') \<and>
         original_positions s' = Some [0..<nat (g * g)] \<and>
         shuffled_positions s' = Some cur \<and>
         is_permutation (nat (g * g)) cur \<and>
         bij_betw (\<lambda>i. cur ! i) {0..<nat (g * g)} {0..<nat (g * g)})) \<and>
   (find_session session_id reg = Some (sid, s) \<and> shuffled_positions s = Some current \<and>
      is_permutation n current \<longrightarrow>
      (\<exists>s' cur.
         find_session session_id (snd (swap_patches a b session_id g ts fc reg)) = Some (sid, s') \<and>
         shuffled_positions s' = Some cur \<and>
         is_permutation n cur \<and>
         original_positions s' = original_positions s))"
proof -
  have always: "(reachable reg \<and> fmlookup (game_sessions reg) sid = Some s \<and>
      shuffled_positions s = Some current \<longrightarrow>
      original_positions s = Some [0..<length current] \<and>
      is_permutation (length current) current \<and>
      bij_betw (\<lambda>i. current ! i) {0..<length current} {0..<length current})"
  proof (rule impI)
    assume h: "reachable reg \<and> fmlookup (game_sessions reg) sid = Some s \<and>
        shuffled_positions s = Some current"
    then have ok: "arrangement_ok s"
      using reachable_registry_ok registry_ok_lookup by blast
    with h have o: "original_positions s = Some [0..<length current]"
      and p: "is_permutation (length current) current"
      by (auto simp: arrangement_ok_def is_permutation_def split: option.splits)
    from o p is_permutation_bij [OF p]
    show "original_positions s = Some [0..<length current] \<and>
        is_permutation (length current) current \<and>
        bij_betw (\<lambda>i. current ! i) {0..<length current} {0..<length current}"
      by blast
  qed
  have shuffled: "(fst (shuffle_image session_id g image_metadata images rb ts fc reg) = Inr ans \<longrightarrow>
      (\<exists>sid' s' cur.
         find_session session_id
           (snd (shuffle_image session_id g image_metadata images rb ts fc reg)) = Some (sid', s') \<and>
         original_positions s' = Some [0..<nat (g * g)] \<and>
         shuffled_positions s' = Some cur \<and>
         is_permutation (nat (g * g)) cur \<and>
         bij_betw (\<lambda>i. cur ! i) {0..<nat (g * g)} {0..<nat (g * g)}))"
  proof (rule impI)
    assume h: "fst (shuffle_image session_id g image_metadata images rb ts fc reg) = Inr ans"
    from shuffle_image_InrD [OF h]
    obtain sid' s0 name level_data src where f: "find_session session_id reg = Some (sid', s0)"
      and n: "current_image_name s0 = Some name"
      and l: "map_of image_metadata (current_level s0) = Some level_data"
      and i: "map_of level_data name \<noteq> None"
      and s: "images (image_path (current_level s0) name) = Some src"
      and g: "1 \<le> g" "g \<le> 512"
      by blast
    let ?n = "nat g * nat g"
    let ?cur = "random_shuffle rb [0..<?n]"
    let ?s' = "s0\<lparr> patches := Some (tiles src (nat (512 div g)) (nat g)),
               original_positions := Some [0..<?n],
               shuffled_positions := Some ?cur,
               current_shuffled_image_path :=
                 (if fc
                  then Some (''app/static/images/temp/'' @
                               temp_name ''shuffled'' sid' (current_level s0) ts)
                  else current_shuffled_image_path s0) \<rparr>"
    have run: "snd (shuffle_image session_id g image_metadata images rb ts fc reg) =
        put_session sid' ?s' reg"
      using shuffle_image_run [where images = images and rb = rb and ts = ts and fc = fc,
          OF f n l i s g] by simp
    have nn: "nat (g * g) = ?n" using g by (simp add: nat_mult_distrib)
    have perm: "is_permutation ?n ?cur" by (rule is_permutation_random_shuffle)
    have "find_session session_id (put_session sid' ?s' reg) = Some (sid', ?s')"
      by (rule find_session_put [OF f])
    with perm is_permutation_bij [OF perm]
    show "\<exists>sid' s' cur.
           find_session session_id
             (snd (shuffle_image session_id g image_metadata images rb ts fc reg)) = Some (sid', s') \<and>
           original_positions s' = Some [0..<nat (g * g)] \<and>
           shuffled_positions s' = Some cur \<and>
           is_permutation (nat (g * g)) cur \<and>
           bij_betw (\<lambda>i. cur ! i) {0..<nat (g * g)} {0..<nat (g * g)}"
      unfolding run nn by (intro exI [of _ sid'] exI [of _ ?s'] exI [of _ ?cur]) simp
  qed
  have swapped: "(find_session session_id reg = Some (sid, s) \<and> shuffled_positions s = Some current \<and>
      is_permutation n current \<longrightarrow>
      (\<exists>s' cur.
         find_session session_id (snd (swap_patches a b session_id g ts fc reg)) = Some (sid, s') \<and>
         shuffled_positions s' = Some cur \<and>
         is_permutation n cur \<and>
         original_positions s' = original_positions s))"
  proof (rule impI)
    assume h: "find_session session_id reg = Some (sid, s) \<and> shuffled_positions s = Some current \<and>
        is_permutation n current"
    then have f: "find_session session_id reg = Some (sid, s)"
      and sp: "shuffled_positions s = Some current" and p: "is_permutation n current"
      by simp_all
    from swap_patches_positions [OF f sp, of a b g ts fc]
    obtain s' where f': "find_session session_id (snd (swap_patches a b session_id g ts fc reg)) =
          Some (sid, s')"
      and o: "original_positions s' = original_positions s"
      and c: "shuffled_positions s' = Some current \<or>
               0 \<le> a \<and> a < int (length current) \<and> 0 \<le> b \<and> b < int (length current) \<and>
               shuffled_positions s' = Some (exchange (nat a) (nat b) current)"
      by blast
    from c show "\<exists>s' cur.
           find_session session_id (snd (swap_patches a b session_id g ts fc reg)) = Some (sid, s') \<and>
           shuffled_positions s' = Some cur \<and>
           is_permutation n cur \<and>
           original_positions s' = original_positions s"
    proof
      assume "shuffled_positions s' = Some current"
      with f' o p show ?thesis by blast
    next
      assume x: "0 \<le> a \<and> a < int (length current) \<and> 0 \<le> b \<and> b < int (length current) \<and>
               shuffled_positions s' = Some (exchange (nat a) (nat b) current)"
      then have "nat a < length current" "nat b < length current" by auto
      then have "is_permutation n (exchange (nat a) (nat b) current)"
        using p by (simp add: is_permutation_exchange)
      with f' o x show ?thesis by blast
    qed
  qed
  show ?thesis by (rule conjI [OF always conjI [OF shuffled swapped]])
qed

text \<open>
  The example: the session after its shuffle on a grid of 2 by 2 holds the order
  \<open>[1, 2, 3, 0]\<close>, and a swap of slots 0 and 3 keeps it a permutation.
\<close>

theorem arrangement_is_permutation_witness:
  "reachable (example_puzzle 2) \<and>
   fmlookup (game_sessions (example_puzzle 2)) ''s1'' = Some example_arrangement \<and>
   shuffled_positions example_arrangement = Some [1, 2, 3, 0] \<and>
   original_positions example_arrangement = Some [0..<length [1, 2, 3, 0::nat]] \<and>
   is_permutation (length [1, 2, 3, 0::nat]) [1, 2, 3, 0] \<and>
   (\<exists>ans. fst (shuffle_image (Some ''s1'') 2 example_catalog example_images zero_draws 0 True
                  example_registry) = Inr ans) \<and>
   (\<exists>sid' s' cur.
      find_session (Some ''s1'')
        (snd (shuffle_image (Some ''s1'') 2 example_catalog example_images zero_draws 0 True
                example_registry)) = Some (sid', s') \<and>
      original_positions s' = Some [0..<nat (2 * 2)] \<and>
      shuffled_positions s' = Some cur \<and>
      is_permutation (nat (2 * 2)) cur) \<and>
   (\<exists>s' cur.
      find_session (Some ''s1'') (snd (swap_patches 0 3 (Some ''s1'') 2 10 True (example_puzzle 2))) =
        Some (''s1'', s') \<and>
      shuffled_positions s' = Some cur \<and>
      is_permutation (length [1, 2, 3, 0::nat]) cur)"
proof -
  have r: "reachable (example_puzzle 2)" by (rule example_puzzle_reachable)
  have l: "fmlookup (game_sessions (example_puzzle 2)) ''s1'' = Some example_arrangement"
    using find_session_SomeD [OF example_arrangement_found] by simp
  have c: "shuffled_positions example_arrangement = Some [1, 2, 3, 0]"
    by (rule example_arrangement_fields)
  have run: "fst (shuffle_image (Some ''s1'') 2 example_catalog example_images zero_draws 0 True
                  example_registry) =
      Inr \<lparr> shuffled_image_url =
              ''/static/images/temp/'' @ temp_name ''shuffled'' ''s1'' ''level_1'' 0,
            answer_grid_size = 2,
            shuffled_image =
              compose (nat (512 div 2)) (nat 2) (tiles (black_image 1000) (nat (512 div 2)) (nat 2))
                (random_shuffle zero_draws [0..<nat 2 * nat 2]) \<rparr>"
    using example_shuffle_run [of 2 zero_draws 0 True] by simp
  note t1 = arrangement_is_permutation
    [where reg = "example_puzzle 2" and sid = "''s1''" and s = example_arrangement
       and current = "[1, 2, 3, 0]" and session_id = "Some ''s1''" and g = 2 and ts = 10
       and fc = True and n = "length [1, 2, 3, 0::nat]" and a = 0 and b = 3]
  from t1 r l c have always: "original_positions example_arrangement = Some [0..<length [1, 2, 3, 0::nat]] \<and>
      is_permutation (length [1, 2, 3, 0::nat]) [1, 2, 3, 0]"
    by blast
  from t1 example_arrangement_found c always
  have swapped: "\<exists>s' cur.
      find_session (Some ''s1'') (snd (swap_patches 0 3 (Some ''s1'') 2 10 True (example_puzzle 2))) =
        Some (''s1'', s') \<and>
      shuffled_positions s' = Some cur \<and>
      is_permutation (length [1, 2, 3, 0::nat]) cur"
    by blast
  note t2 = arrangement_is_permutation
    [where reg = example_registry and session_id = "Some ''s1''" and g = 2
       and image_metadata = example_catalog and images = example_images and rb = zero_draws
       and ts = 0 and fc = True]
  from t2 run have shuffled: "\<exists>sid' s' cur.
      find_session (Some ''s1'')
        (snd (shuffle_image (Some ''s1'') 2 example_catalog example_images zero_draws 0 True
                example_registry)) = Some (sid', s') \<and>
      original_positions s' = Some [0..<nat (2 * 2)] \<and>
      shuffled_positions s' = Some cur \<and>
      is_permutation (nat (2 * 2)) cur"
    by blast
  from run have ex: "\<exists>ans. fst (shuffle_image (Some ''s1'') 2 example_catalog example_images
      zero_draws 0 True example_registry) = Inr ans" by blast
  from r l c always ex shuffled swapped show ?thesis by blast
qed

section \<open>Outcomes of a swap\<close>

lemma tiled_patches:
  assumes "tiled g s"
  obtains ps where "patches s = Some ps" "length ps = nat (g * g)"
  using assms by (auto simp: tiled_def split: option.splits)




section \<open>Tile partitioner\<close>

lemma tiles_shape:
  "list_all (\<lambda>p. length p = P \<and> list_all (\<lambda>row. length row = P) p) (tiles src P G)"
  by (auto simp: list_all_iff tiles_def tile_def)

lemma img_array_rows: "list_all (\<lambda>row. length row = t) (img_array src t)"
  by (auto simp: list_all_iff img_array_def)

text \<open>
  Claim C6, as stated, fails: the edge of a tile is not the source image's edge
  divided by \<open>N\<close>. The code never reads the size of the source; it divides the fixed
  edge 512. The example image is 1000 pixels wide and high; on a grid of 4 by 4 its
  16 tiles have 128 rows each, not 250.
\<close>

theorem tile_edge_counterexample:
  "example_images ''app/static/images/level_1/scan.png'' = Some (black_image 1000) \<and>
   src_width (black_image 1000) = 1000 \<and> src_height (black_image 1000) = 1000 \<and>
   (1000::nat) div 4 = 250 \<and>
   patches (the (fmlookup (game_sessions (example_puzzle 4)) ''s1'')) =
     Some (tiles (black_image 1000) 128 4) \<and>
   map length (tiles (black_image 1000) 128 4) = replicate 16 128"
proof -
  have "example_puzzle 4 = put_session ''s1''
        (example_session
           \<lparr> patches := Some (tiles (black_image 1000) (nat (512 div 4)) (nat 4)),
             original_positions := Some [0..<nat 4 * nat 4],
             shuffled_positions := Some (random_shuffle zero_draws [0..<nat 4 * nat 4]),
             current_shuffled_image_path :=
               (if True
                then Some (''app/static/images/temp/'' @
                             temp_name ''shuffled'' ''s1'' ''level_1'' 0)
                else None) \<rparr>)
        example_registry"
    using example_shuffle_run [of 4 zero_draws 0 True] by (simp add: example_puzzle_def)
  then have p: "patches (the (fmlookup (game_sessions (example_puzzle 4)) ''s1'')) =
     Some (tiles (black_image 1000) 128 4)"
    by (simp add: put_session_def)
  have m: "map length (tiles (black_image 1000) 128 4) = replicate 16 128"
  proof -
    have "map length (tiles (black_image 1000) 128 4) = map (\<lambda>k. 128) [0..<4 * 4]"
      unfolding tiles_def by (simp add: comp_def)
    also have "\<dots> = replicate 16 128" by (simp add: map_replicate_const)
    finally show ?thesis .
  qed
  show ?thesis
    using p m by (simp add: example_images_def black_image_def)
qed

text \<open>
  Claim C6, amended. For every source image and every grid dimension \<open>N\<close> from 1 to
  512, so for every \<open>N\<close> in \<open>[2, 10]\<close>, the shuffle stores exactly \<open>N\<^sup>2\<close> tiles, each
  a square of edge \<open>512 div N\<close>, cut from the source resized to \<open>N * (512 div N)\<close>
  pixels on both axes; and the rendering loops, run on these tiles in their own
  order, give the resized source again.
\<close>

theorem partition_into_tiles:
  assumes f: "find_session session_id reg = Some (sid, s)"
    and n: "current_image_name s = Some name"
    and l: "map_of image_metadata (current_level s) = Some level_data"
    and i: "map_of level_data name \<noteq> None"
    and src: "images (image_path (current_level s) name) = Some src"
    and g: "1 \<le> g" "g \<le> 512"
  shows "\<exists>s' ps.
           find_session session_id
             (snd (shuffle_image session_id g image_metadata images rb ts fc reg)) = Some (sid, s') \<and>
           patches s' = Some ps \<and>
           extract_patches (nat (512 div g)) (img_array src (nat (512 div g * g))) = Inr ps \<and>
           length ps = nat (g * g) \<and>
           list_all (\<lambda>p. length p = nat (512 div g) \<and>
                          list_all (\<lambda>row. length row = nat (512 div g)) p) ps \<and>
           length (img_array src (nat (512 div g * g))) = nat g * nat (512 div g) \<and>
           list_all (\<lambda>row. length row = nat g * nat (512 div g))
             (img_array src (nat (512 div g * g))) \<and>
           paste_loop False (512 div g) ps [0..<length ps]
             (List.product (py_range (512 div g * g) (512 div g))
                (py_range (512 div g * g) (512 div g)))
             0 (zeros (nat (512 div g * g)) (nat (512 div g * g))) =
             Inr (img_array src (nat (512 div g * g)))"
proof -
  let ?p = "512 div g"
  let ?P = "nat ?p" and ?G = "nat g"
  have p: "0 < ?p" using g by (simp add: patch_size_positive_iff)
  have P: "0 < ?P" and G: "0 < ?G" using p g by simp_all
  have t: "nat (?p * g) = ?P * ?G" using p g by (simp add: nat_mult_distrib)
  have gg: "nat (g * g) = ?G * ?G" using g by (simp add: nat_mult_distrib)
  have ip: "int ?P = ?p" and ig: "int ?G = g" using p g by simp_all
  let ?ps = "tiles src ?P ?G"
  let ?s' = "s\<lparr> patches := Some ?ps,
             original_positions := Some [0..<?G * ?G],
             shuffled_positions := Some (random_shuffle rb [0..<?G * ?G]),
             current_shuffled_image_path :=
               (if fc
                then Some (''app/static/images/temp/'' @
                             temp_name ''shuffled'' sid (current_level s) ts)
                else current_shuffled_image_path s) \<rparr>"
  have run: "snd (shuffle_image session_id g image_metadata images rb ts fc reg) =
      put_session sid ?s' reg"
    using shuffle_image_run [where images = images and rb = rb and ts = ts and fc = fc,
        OF f n l i src g] by simp
  have found: "find_session session_id
             (snd (shuffle_image session_id g image_metadata images rb ts fc reg)) = Some (sid, ?s')"
    unfolding run by (rule find_session_put [OF f])
  have ex: "extract_patches ?P (img_array src (nat (?p * g))) = Inr ?ps"
    unfolding t by (rule extract_patches_tiles [OF P G])
  have len: "length ?ps = nat (g * g)" using gg by simp
  have shape: "list_all (\<lambda>p. length p = ?P \<and> list_all (\<lambda>row. length row = ?P) p) ?ps"
    by (rule tiles_shape)
  have il: "length (img_array src (nat (?p * g))) = ?G * ?P" using t by (simp add: mult.commute)
  have ir: "list_all (\<lambda>row. length row = ?G * ?P) (img_array src (nat (?p * g)))"
    using img_array_rows [of "nat (?p * g)" src] t by (simp add: mult.commute)
  have inr: "\<forall>k < ?G * ?G. [0..<?G * ?G] ! k < length ?ps" by simp
  have "paste_loop False (int ?P) ?ps [0..<?G * ?G]
          (block_corners (int ?P * int ?G) (int ?P)) 0 (zeros (?P * ?G) (?P * ?G)) =
        Inr (compose ?P ?G ?ps [0..<?G * ?G])"
    by (rule paste_loop_compose [OF P G _ inr]) simp_all
  then have paste: "paste_loop False ?p ?ps [0..<length ?ps]
             (List.product (py_range (?p * g) ?p) (py_range (?p * g) ?p))
             0 (zeros (nat (?p * g)) (nat (?p * g))) = Inr (img_array src (nat (?p * g)))"
    unfolding ip ig block_corners_def t compose_tiles_identity [OF P] by simp
  have "patches ?s' = Some ?ps" by simp
  with found ex len shape il ir paste show ?thesis by blast
qed

text \<open>The example image on a grid of 4 by 4.\<close>

theorem partition_into_tiles_witness:
  "find_session (Some ''s1'') example_registry = Some (''s1'', example_session) \<and>
   example_images (image_path (current_level example_session) ''scan.png'') =
     Some (black_image 1000) \<and>
   (1::int) \<le> 4 \<and> (4::int) \<le> 512 \<and>
   (\<exists>s' ps.
      find_session (Some ''s1'')
        (snd (shuffle_image (Some ''s1'') 4 example_catalog example_images zero_draws 0 True
                example_registry)) = Some (''s1'', s') \<and>
      patches s' = Some ps \<and>
      extract_patches (nat (512 div 4)) (img_array (black_image 1000) (nat (512 div 4 * 4))) = Inr ps \<and>
      length ps = nat (4 * 4) \<and>
      paste_loop False (512 div 4) ps [0..<length ps]
        (List.product (py_range (512 div 4 * 4) (512 div 4)) (py_range (512 div 4 * 4) (512 div 4)))
        0 (zeros (nat (512 div 4 * 4)) (nat (512 div 4 * 4))) =
        Inr (img_array (black_image 1000) (nat (512 div 4 * 4))))"
proof -
  have n: "current_image_name example_session = Some ''scan.png''"
    and l: "current_level example_session = ''level_1''"
    by (simp_all add: example_session_def new_session_def)
  have c: "map_of example_catalog (current_level example_session) =
             Some [(''scan.png'', \<lparr> organ = ''Unknown'', modality = ''Unknown'', questions = [] \<rparr>)]"
    by (simp add: l example_catalog_def)
  have i: "map_of [(''scan.png'', \<lparr> organ = ''Unknown'', modality = ''Unknown'', questions = [] \<rparr>)]
             ''scan.png'' \<noteq> None" by simp
  have f: "example_images (image_path (current_level example_session) ''scan.png'') =
             Some (black_image 1000)"
    by (simp add: l example_images_def image_path_def)
  have g: "(1::int) \<le> 4" "(4::int) \<le> 512" by simp_all
  from partition_into_tiles [where images = example_images and rb = zero_draws and ts = 0
      and fc = True, OF example_find n c i f g]
  have "\<exists>s' ps.
      find_session (Some ''s1'')
        (snd (shuffle_image (Some ''s1'') 4 example_catalog example_images zero_draws 0 True
                example_registry)) = Some (''s1'', s') \<and>
      patches s' = Some ps \<and>
      extract_patches (nat (512 div 4)) (img_array (black_image 1000) (nat (512 div 4 * 4))) = Inr ps \<and>
      length ps = nat (4 * 4) \<and>
      paste_loop False (512 div 4) ps [0..<length ps]
        (List.product (py_range (512 div 4 * 4) (512 div 4)) (py_range (512 div 4 * 4) (512 div 4)))
        0 (zeros (nat (512 div 4 * 4)) (nat (512 div 4 * 4))) =
        Inr (img_array (black_image 1000) (nat (512 div 4 * 4)))"
    by blast
  with example_find f g show ?thesis by blast
qed

section \<open>Where the grid size is checked\<close>

lemma shuffle_image_bad_grid:
  assumes f: "find_session session_id reg = Some (sid, s)"
    and n: "current_image_name s = Some name"
    and l: "map_of image_metadata (current_level s) = Some level_data"
    and i: "map_of level_data name \<noteq> None"
    and src: "images (image_path (current_level s) name) = Some src"
    and g: "g < 1 \<or> 512 < g"
  shows "shuffle_image session_id g image_metadata images rb ts fc reg = (Inl ShuffleFailed, reg)"
proof -
  have "\<not> 0 < 512 div g" unfolding patch_size_positive_iff using g by linarith
  then have "512 div g \<le> 0" by simp
  with f n l i src show ?thesis
    by (auto simp: shuffle_image_def Let_def)
qed

text \<open>
  Claim C7, as stated, fails: the partitioner does not reject a grid dimension outside
  \<open>[2, 10]\<close>. With 11 in the configuration the shuffle succeeds, with 121 tiles of
  edge 46.
\<close>

theorem partition_accepts_grid_11_counterexample:
  "\<not> (2 \<le> (11::int) \<and> (11::int) \<le> 10) \<and>
   shuffle_image (Some ''s1'') 11 example_catalog example_images zero_draws 0 True
       example_registry =
     (Inr \<lparr> shuffled_image_url =
              ''/static/images/temp/'' @ temp_name ''shuffled'' ''s1'' ''level_1'' 0,
            answer_grid_size = 11,
            shuffled_image =
              compose 46 11 (tiles (black_image 1000) 46 11)
                (random_shuffle zero_draws [0..<121]) \<rparr>,
      put_session ''s1''
        (example_session
           \<lparr> patches := Some (tiles (black_image 1000) 46 11),
             original_positions := Some [0..<121],
             shuffled_positions := Some (random_shuffle zero_draws [0..<121]),
             current_shuffled_image_path :=
               Some (''app/static/images/temp/'' @ temp_name ''shuffled'' ''s1'' ''level_1'' 0) \<rparr>)
        example_registry)"
  using example_shuffle_run [of 11 zero_draws 0 True] by simp

text \<open>
  Claim C7, amended. The range \<open>[2, 10]\<close> is checked where the grid size is
  configured: \<open>update_config\<close> answers a grid size outside it with status 400 and
  leaves the stored configuration as it was, so nothing is clamped; a grid size inside
  it is stored as given. The partitioner takes the grid size it reads as it is: for a
  session with an image whose file exists, it fails, with status 500, exactly for a
  grid size below 1 or above 512, and otherwise cuts with that grid size.
\<close>

theorem grid_size_checked_at_configuration:
  "(g < 2 \<or> 10 < g \<longrightarrow>
      update_config (Some g) countdown_time password password cfg =
        (Inl GridSizeOutOfRange, cfg) \<and>
      status_code GridSizeOutOfRange = 400) \<and>
   (2 \<le> g \<and> g \<le> 10 \<longrightarrow>
      update_config (Some g) None password password cfg =
        (Inr [GridSizeUpdated g], set_grid_size g cfg) \<and>
      get_grid_size (set_grid_size g cfg) = g) \<and>
   (find_session session_id reg = Some (sid, s) \<and> current_image_name s = Some name \<and>
    map_of image_metadata (current_level s) = Some level_data \<and>
    map_of level_data name \<noteq> None \<and>
    images (image_path (current_level s) name) = Some src \<longrightarrow>
      (g < 1 \<or> 512 < g \<longrightarrow>
         shuffle_image session_id g image_metadata images rb ts fc reg = (Inl ShuffleFailed, reg) \<and>
         status_code ShuffleFailed = 500) \<and>
      (1 \<le> g \<and> g \<le> 512 \<and> fc \<longrightarrow>
         (\<exists>ans. fst (shuffle_image session_id g image_metadata images rb ts fc reg) = Inr ans \<and>
                answer_grid_size ans = g)))"
proof -
  have rej: "g < 2 \<or> 10 < g \<longrightarrow>
      update_config (Some g) countdown_time password password cfg =
        (Inl GridSizeOutOfRange, cfg) \<and>
      status_code GridSizeOutOfRange = 400"
    by (auto simp: update_config_def)
  have acc: "2 \<le> g \<and> g \<le> 10 \<longrightarrow>
      update_config (Some g) None password password cfg =
        (Inr [GridSizeUpdated g], set_grid_size g cfg) \<and>
      get_grid_size (set_grid_size g cfg) = g"
    by (auto simp: update_config_def get_grid_size_def set_grid_size_def load_config_def)
  have part: "find_session session_id reg = Some (sid, s) \<and> current_image_name s = Some name \<and>
    map_of image_metadata (current_level s) = Some level_data \<and>
    map_of level_data name \<noteq> None \<and>
    images (image_path (current_level s) name) = Some src \<longrightarrow>
      (g < 1 \<or> 512 < g \<longrightarrow>
         shuffle_image session_id g image_metadata images rb ts fc reg = (Inl ShuffleFailed, reg) \<and>
         status_code ShuffleFailed = 500) \<and>
      (1 \<le> g \<and> g \<le> 512 \<and> fc \<longrightarrow>
         (\<exists>ans. fst (shuffle_image session_id g image_metadata images rb ts fc reg) = Inr ans \<and>
                answer_grid_size ans = g))"
  proof (rule impI)
    assume h: "find_session session_id reg = Some (sid, s) \<and> current_image_name s = Some name \<and>
      map_of image_metadata (current_level s) = Some level_data \<and>
      map_of level_data name \<noteq> None \<and>
      images (image_path (current_level s) name) = Some src"
    then have f: "find_session session_id reg = Some (sid, s)"
      and n: "current_image_name s = Some name"
      and l: "map_of image_metadata (current_level s) = Some level_data"
      and i: "map_of level_data name \<noteq> None"
      and src: "images (image_path (current_level s) name) = Some src"
      by simp_all
    have bad: "shuffle_image session_id g image_metadata images rb ts fc reg = (Inl ShuffleFailed, reg) \<and>
         status_code ShuffleFailed = 500" if "g < 1 \<or> 512 < g"
      using shuffle_image_bad_grid [where images = images and rb = rb and ts = ts and fc = fc,
          OF f n l i src that] by simp
    have good: "\<exists>ans. fst (shuffle_image session_id g image_metadata images rb ts fc reg) = Inr ans \<and>
                answer_grid_size ans = g" if "1 \<le> g \<and> g \<le> 512 \<and> fc"
    proof -
      from that have g: "1 \<le> g" "g \<le> 512" and fc by simp_all
      from shuffle_image_run [where images = images and rb = rb and ts = ts and fc = fc,
          OF f n l i src g] \<open>fc\<close>
      show ?thesis by simp
    qed
    from bad good show "(g < 1 \<or> 512 < g \<longrightarrow>
         shuffle_image session_id g image_metadata images rb ts fc reg = (Inl ShuffleFailed, reg) \<and>
         status_code ShuffleFailed = 500) \<and>
      (1 \<le> g \<and> g \<le> 512 \<and> fc \<longrightarrow>
         (\<exists>ans. fst (shuffle_image session_id g image_metadata images rb ts fc reg) = Inr ans \<and>
                answer_grid_size ans = g))"
      by blast
  qed
  show ?thesis by (rule conjI [OF rej conjI [OF acc part]])
qed

text \<open>
  Grid size 11 is refused by the configuration endpoint and 5 is stored; the
  partitioner fails on 0 and accepts 11.
\<close>

theorem grid_size_checked_at_configuration_witness:
  "((11::int) < 2 \<or> (10::int) < 11) \<and>
   update_config (Some 11) None ''secret'' ''secret'' None = (Inl GridSizeOutOfRange, None) \<and>
   (2 \<le> (5::int) \<and> (5::int) \<le> 10) \<and>
   update_config (Some 5) None ''secret'' ''secret'' None =
     (Inr [GridSizeUpdated 5], set_grid_size 5 None) \<and>
   get_grid_size (set_grid_size 5 None) = 5 \<and>
   find_session (Some ''s1'') example_registry = Some (''s1'', example_session) \<and>
   example_images (image_path (current_level example_session) ''scan.png'') =
     Some (black_image 1000) \<and>
   shuffle_image (Some ''s1'') 0 example_catalog example_images zero_draws 0 True example_registry =
     (Inl ShuffleFailed, example_registry) \<and>
   (\<exists>ans. fst (shuffle_image (Some ''s1'') 11 example_catalog example_images zero_draws 0 True
                  example_registry) = Inr ans \<and>
          answer_grid_size ans = 11)"
proof -
  have n: "current_image_name example_session = Some ''scan.png''"
    and l: "current_level example_session = ''level_1''"
    by (simp_all add: example_session_def new_session_def)
  have c: "map_of example_catalog (current_level example_session) =
             Some [(''scan.png'', \<lparr> organ = ''Unknown'', modality = ''Unknown'', questions = [] \<rparr>)]"
    by (simp add: l example_catalog_def)
  have i: "map_of [(''scan.png'', \<lparr> organ = ''Unknown'', modality = ''Unknown'', questions = [] \<rparr>)]
             ''scan.png'' \<noteq> None" by simp
  have f: "example_images (image_path (current_level example_session) ''scan.png'') =
             Some (black_image 1000)"
    by (simp add: l example_images_def image_path_def)
  have o: "(11::int) < 2 \<or> (10::int) < 11" and q: "2 \<le> (5::int) \<and> (5::int) \<le> 10"
    and z: "(0::int) < 1 \<or> (512::int) < 0" and e: "1 \<le> (11::int) \<and> (11::int) \<le> 512 \<and> True"
    by simp_all
  from grid_size_checked_at_configuration [where g = 11 and countdown_time = None
      and password = "''secret''" and cfg = None] o
  have rej: "update_config (Some 11) None ''secret'' ''secret'' None = (Inl GridSizeOutOfRange, None)"
    by blast
  from grid_size_checked_at_configuration [where g = 5 and password = "''secret''" and cfg = None] q
  have acc: "update_config (Some 5) None ''secret'' ''secret'' None =
     (Inr [GridSizeUpdated 5], set_grid_size 5 None) \<and>
     get_grid_size (set_grid_size 5 None) = 5"
    by blast
  from grid_size_checked_at_configuration [where g = 0 and session_id = "Some ''s1''"
      and reg = example_registry and sid = "''s1''" and s = example_session
      and name = "''scan.png''" and image_metadata = example_catalog and images = example_images
      and src = "black_image 1000" and rb = zero_draws and ts = 0 and fc = True]
    example_find n c i f z
  have bad: "shuffle_image (Some ''s1'') 0 example_catalog example_images zero_draws 0 True
      example_registry = (Inl ShuffleFailed, example_registry)"
    by blast
  from grid_size_checked_at_configuration [where g = 11 and session_id = "Some ''s1''"
      and reg = example_registry and sid = "''s1''" and s = example_session
      and name = "''scan.png''" and image_metadata = example_catalog and images = example_images
      and src = "black_image 1000" and rb = zero_draws and ts = 0 and fc = True]
    example_find n c i f e
  have good: "\<exists>ans. fst (shuffle_image (Some ''s1'') 11 example_catalog example_images zero_draws 0
      True example_registry) = Inr ans \<and> answer_grid_size ans = 11"
    by blast
  from o q rej acc example_find f bad good show ?thesis by blast
qed

section \<open>Rounding to a double\<close>

lemma exponent_from_le:
  "y < 2 ^ Suc k \<Longrightarrow> exponent_from n y e \<le> e + int k"
proof (induction n arbitrary: y e k)
  case 0
  then show ?case by simp
next
  case (Suc n)
  show ?case
  proof (cases "y < 1")
    case True
    then have "y * 2 < 2 ^ Suc k"
    proof -
      have "y * 2 < 2" using True by simp
      also have "(2::rat) \<le> 2 ^ Suc k" by (simp add: self_le_power)
      finally show ?thesis .
    qed
    from Suc.IH [OF this, of "e - 1"] True show ?thesis by simp
  next
    case False
    show ?thesis
    proof (cases "2 \<le> y")
      case True
      have "k \<noteq> 0"
      proof
        assume "k = 0"
        with Suc.prems True show False by simp
      qed
      then obtain k' where k: "k = Suc k'" by (cases k) auto
      have "y / 2 < 2 ^ Suc k'" using Suc.prems k by simp
      from Suc.IH [OF this, of "e + 1"] True False k show ?thesis by simp
    next
      case F2: False
      with False show ?thesis by simp
    qed
  qed
qed

lemma exponent_from_ge:
  "2 ^ k \<le> y \<Longrightarrow> k \<le> n \<Longrightarrow> e + int k \<le> exponent_from n y e"
proof (induction n arbitrary: y e k)
  case 0
  then show ?case by simp
next
  case (Suc n)
  have y1: "1 \<le> y"
  proof -
    have "(1::rat) \<le> 2 ^ k" by simp
    with Suc.prems show ?thesis by linarith
  qed
  show ?case
  proof (cases "2 \<le> y")
    case True
    show ?thesis
    proof (cases k)
      case 0
      have "(2::rat) ^ 0 \<le> y / 2" using True by simp
      from Suc.IH [OF this, of "e + 1"] 0 True y1 show ?thesis by simp
    next
      case (Suc k')
      then have "2 ^ k' \<le> y / 2" and "k' \<le> n" using Suc.prems by simp_all
      from Suc.IH [OF this, of "e + 1"] Suc True y1 show ?thesis by simp
    qed
  next
    case False
    have "k = 0"
    proof (rule ccontr)
      assume "k \<noteq> 0"
      then have "(2::rat) ^ 1 \<le> 2 ^ k" by (intro power_increasing) simp_all
      with Suc.prems False show False by simp
    qed
    with False y1 show ?thesis by simp
  qed
qed

lemma exponent_eq:
  assumes "2 ^ k \<le> y" "y < 2 ^ Suc k" "k \<le> 2200"
  shows "exponent y = int k"
  using exponent_from_le [OF assms(2), of 2200 0] exponent_from_ge [OF assms(1,3), of 0]
  by (simp add: exponent_def)

lemma exponent_le:
  assumes "y < 2 ^ Suc k"
  shows "exponent y \<le> int k"
  using exponent_from_le [OF assms, of 2200 0] by (simp add: exponent_def)

lemma round_half_even_of_int [simp]: "round_half_even (of_int z) = z"
  by (simp add: round_half_even_def)

lemma round_half_even_ge: "of_int z \<le> x \<Longrightarrow> z \<le> round_half_even x"
proof -
  assume "of_int z \<le> x"
  then have "z \<le> \<lfloor>x\<rfloor>" by (simp add: le_floor_iff)
  then show ?thesis by (auto simp: round_half_even_def Let_def)
qed

lemma round_half_even_le:
  assumes "x < of_int z + 1 / 2"
  shows "round_half_even x \<le> z"
proof -
  have fz: "\<lfloor>x\<rfloor> \<le> z"
  proof -
    have "x < of_int z + 1" using assms by simp
    then have "\<lfloor>x\<rfloor> < z + 1" unfolding floor_less_iff by simp
    then show ?thesis by linarith
  qed
  show ?thesis
  proof (cases "\<lfloor>x\<rfloor> = z")
    case True
    then have "x - of_int \<lfloor>x\<rfloor> < 1 / 2" using assms by simp
    with True show ?thesis by (simp add: round_half_even_def Let_def)
  next
    case False
    with fz have "\<lfloor>x\<rfloor> + 1 \<le> z" by simp
    then show ?thesis by (auto simp: round_half_even_def Let_def)
  qed
qed

text \<open>Below \<open>2\<^sup>5\<^sup>2\<close> the quantum of a double is at most one half.\<close>

lemma to_double_small:
  assumes "0 < x" "x < 2 ^ 52"
  shows "\<exists>n. 1 \<le> n \<and>
           to_double x =
             (if (2::rat) ^ 1024 \<le> of_int (round_half_even (x * 2 ^ n)) / 2 ^ n then None
              else Some (of_int (round_half_even (x * 2 ^ n)) / 2 ^ n))"
proof -
  let ?e = "max (exponent \<bar>x\<bar> - 52) (- 1074)"
  have ax: "\<bar>x\<bar> = x" and sx: "sgn x = 1" and x0: "x \<noteq> 0" using assms(1) by simp_all
  have "exponent x \<le> int 51" by (rule exponent_le) (use assms(2) in simp)
  then have e: "?e \<le> - 1" unfolding ax by simp
  let ?n = "nat (- ?e)"
  have n: "1 \<le> ?n" using e by linarith
  have p: "pow2 ?e = 1 / 2 ^ ?n" using e by (simp add: pow2_def)
  have "to_double x =
             (if (2::rat) ^ 1024 \<le> of_int (round_half_even (x * 2 ^ ?n)) / 2 ^ ?n then None
              else Some (of_int (round_half_even (x * 2 ^ ?n)) / 2 ^ ?n))"
    unfolding to_double_def Let_def p using x0 by (simp add: ax sx)
  with n show ?thesis by blast
qed

lemma to_double_of_int:
  assumes "0 \<le> z" "z < 2 ^ 52"
  shows "to_double (of_int z) = Some (of_int z)"
proof (cases "z = 0")
  case True
  then show ?thesis by (simp add: to_double_def)
next
  case False
  with assms have "0 < z" by simp
  then have z1: "0 < (of_int z :: rat)" by simp
  have "(of_int z :: rat) < of_int (2 ^ 52)" using assms(2) by (simp only: of_int_less_iff)
  then have z2: "(of_int z :: rat) < 2 ^ 52" by simp
  note z = z1 z2
  from to_double_small [OF z] obtain n where
    d: "to_double (of_int z) =
             (if (2::rat) ^ 1024 \<le> of_int (round_half_even (of_int z * 2 ^ n)) / 2 ^ n then None
              else Some (of_int (round_half_even (of_int z * 2 ^ n)) / 2 ^ n))"
    by blast
  have "(of_int z :: rat) * 2 ^ n = of_int (z * 2 ^ n)" by simp
  then have r: "of_int (round_half_even (of_int z * 2 ^ n)) / (2::rat) ^ n = of_int z"
    by (simp only: round_half_even_of_int) simp
  have "(of_int z :: rat) < 2 ^ 1024"
  proof -
    have "(2::rat) ^ 52 \<le> 2 ^ 1024" by (intro power_increasing) simp_all
    with z(2) show ?thesis by linarith
  qed
  with d r show ?thesis by simp
qed

text \<open>
  Rounding does not carry a value below \<open>2\<^sup>5\<^sup>2\<close> across the next integer as long as
  its fractional part is below three quarters, so truncation sees the same integer.
\<close>

lemma to_double_trunc:
  assumes x0: "0 < x" and x52: "x < 2 ^ 52"
    and lo: "of_int t \<le> x" and hi: "x < of_int t + 3 / 4"
  shows "\<exists>r. to_double x = Some r \<and> py_int r = t \<and> 0 \<le> r \<and> r < of_int t + 1"
proof -
  from to_double_small [OF x0 x52] obtain n where n: "1 \<le> n" and
    d: "to_double x =
             (if (2::rat) ^ 1024 \<le> of_int (round_half_even (x * 2 ^ n)) / 2 ^ n then None
              else Some (of_int (round_half_even (x * 2 ^ n)) / 2 ^ n))"
    by blast
  let ?q = "(2::int) ^ n"
  let ?m = "round_half_even (x * 2 ^ n)"
  have q2: "2 \<le> ?q" using n by (metis power_one_right power_increasing one_le_numeral)
  have qr: "(of_int ?q :: rat) = 2 ^ n" by simp
  have q2r: "(2::rat) \<le> 2 ^ n" using q2 by (metis qr of_int_le_iff of_int_numeral)
  have "of_int (t * ?q) \<le> x * 2 ^ n" using lo by (simp add: mult_right_mono)
  then have m_lo: "t * ?q \<le> ?m" by (rule round_half_even_ge)
  have "x * 2 ^ n < (of_int t + 3 / 4) * 2 ^ n" using hi by (simp add: mult_strict_right_mono)
  also have "\<dots> = of_int ((t + 1) * ?q) - 2 ^ n / 4" by (simp add: algebra_simps)
  also have "\<dots> \<le> of_int ((t + 1) * ?q) - 1 / 2" using q2r by simp
  also have "\<dots> = of_int ((t + 1) * ?q - 1) + 1 / 2" by simp
  finally have m_hi: "?m \<le> (t + 1) * ?q - 1" by (rule round_half_even_le)
  have t0: "0 \<le> t"
  proof -
    have "(0::rat) < of_int t + 3 / 4" using x0 hi by linarith
    then have "(- 1 :: rat) < of_int t" by linarith
    then have "- 1 < t" by (metis of_int_less_iff of_int_minus of_int_1)
    then show ?thesis by simp
  qed
  have m0: "0 \<le> ?m" using m_lo t0 by (metis mult_nonneg_nonneg order_trans zero_le_numeral zero_le_power)
  let ?r = "(of_int ?m :: rat) / 2 ^ n"
  have r0: "0 \<le> ?r" using m0 by simp
  have fl: "\<lfloor>?r\<rfloor> = ?m div ?q"
    using floor_divide_of_int_eq [of ?m ?q, where ?'a = rat] by simp
  have "?m div ?q = t"
    by (rule int_div_pos_eq [where r = "?m - ?q * t"]) (use m_lo m_hi in \<open>simp_all add: algebra_simps\<close>)
  with fl r0 have tr: "py_int ?r = t" by (simp add: py_int_def)
  have "?m < (t + 1) * ?q" using m_hi by simp
  then have "of_int ?m < (of_int ((t + 1) * ?q) :: rat)" by (simp only: of_int_less_iff)
  then have rt: "?r < of_int (t + 1)" by (simp add: divide_less_eq)
  have "?r < 2 ^ 1024"
  proof -
    note rt
    also have "(of_int (t + 1) :: rat) \<le> x + 1" using lo by simp
    also have "\<dots> < 2 ^ 52 + 1" using x52 by simp
    also have "\<dots> \<le> (2::rat) ^ 1024"
    proof -
      have "(2::rat) ^ 53 \<le> 2 ^ 1024" by (intro power_increasing) simp_all
      then show ?thesis by simp
    qed
    finally show ?thesis .
  qed
  then have "to_double x = Some ?r" using d by simp
  moreover have "?r < of_int t + 1" using rt by simp
  ultimately show ?thesis using tr r0 by blast
qed

subsection \<open>The weight of one question, and the weighted score\<close>

text \<open>
  A rounding is settled by a certificate: the integer within one half of the scaled
  value. The weights per question of the four levels follow; two of them are not
  exact.
\<close>

lemma round_half_even_eq:
  assumes "of_int z - 1 / 2 < x" "x < of_int z + 1 / 2"
  shows "round_half_even x = z"
proof (rule antisym)
  show "round_half_even x \<le> z" by (rule round_half_even_le [OF assms(2)])
next
  have "of_int (z - 1) < x" using assms(1) by simp
  then have f1: "z - 1 \<le> \<lfloor>x\<rfloor>" by (simp add: le_floor_iff)
  show "z \<le> round_half_even x"
  proof (cases "z \<le> \<lfloor>x\<rfloor>")
    case True
    then show ?thesis by (auto simp: round_half_even_def Let_def)
  next
    case False
    with f1 have f: "\<lfloor>x\<rfloor> = z - 1" by simp
    then have "1 / 2 < x - of_int \<lfloor>x\<rfloor>" using assms(1) by simp
    with f show ?thesis by (simp add: round_half_even_def Let_def)
  qed
qed

lemma to_double_at:
  assumes x: "0 < x" and k: "exponent x = 52 - int n" and n: "0 < n" "n \<le> 1074"
    and m: "round_half_even (x * 2 ^ n) = z" and z: "z < 2 ^ 53"
  shows "to_double x = Some (of_int z / 2 ^ n)"
proof -
  have ax: "\<bar>x\<bar> = x" and sx: "sgn x = 1" and x0: "x \<noteq> 0" using x by simp_all
  have e: "max (exponent x - 52) (- 1074) = - int n"
    unfolding k using n by simp
  have p: "pow2 (- int n) = 1 / 2 ^ n"
    using n by (simp add: pow2_def)
  have "(of_int z :: rat) < of_int (2 ^ 53)" using z by (simp only: of_int_less_iff)
  then have z53: "(of_int z :: rat) < 2 ^ 53" by simp
  have "(2::rat) ^ 53 \<le> 2 ^ 1024" by (intro power_increasing) simp_all
  with z53 have z1024: "(of_int z :: rat) < 2 ^ 1024" by (rule less_le_trans)
  have "(1::rat) \<le> 2 ^ n" by simp
  then have "(2::rat) ^ 1024 * 1 \<le> 2 ^ 1024 * 2 ^ n"
    by (intro mult_left_mono) simp_all
  then have "(2::rat) ^ 1024 \<le> 2 ^ 1024 * 2 ^ n" by (simp only: mult_1_right)
  with z1024 have "(of_int z :: rat) < 2 ^ 1024 * 2 ^ n" by (rule less_le_trans)
  then have small: "(of_int z :: rat) / 2 ^ n < 2 ^ 1024"
    by (simp add: divide_less_eq)
  have r: "of_int (round_half_even (x / (1 / 2 ^ n))) * (1 / 2 ^ n) = (of_int z :: rat) / 2 ^ n"
    using m by simp
  have ns: "\<not> (2::rat) ^ 1024 \<le> of_int z / 2 ^ n" using small by simp
  show ?thesis
    unfolding to_double_def Let_def e p ax sx r
    using x0 ns by simp
qed

lemma float_truediv_10_3:
  "float_truediv 10 3 = Some (7505999378950827 / 2251799813685248)"
proof -
  have "exponent (10 / 3) = int 1"
    by (rule exponent_eq) simp_all
  then have e: "exponent (10 / 3) = 52 - int 51" by simp
  have m: "round_half_even ((10 / 3) * 2 ^ 51) = 7505999378950827"
    by (rule round_half_even_eq) simp_all
  have "to_double (10 / 3) = Some (of_int 7505999378950827 / 2 ^ 51)"
    by (rule to_double_at [OF _ e _ _ m]) simp_all
  then show ?thesis by (simp add: float_truediv_def)
qed

lemma float_truediv_20_3:
  "float_truediv 20 3 = Some (7505999378950827 / 1125899906842624)"
proof -
  have "exponent (20 / 3) = int 2"
    by (rule exponent_eq) simp_all
  then have e: "exponent (20 / 3) = 52 - int 50" by simp
  have m: "round_half_even ((20 / 3) * 2 ^ 50) = 7505999378950827"
    by (rule round_half_even_eq) simp_all
  have "to_double (20 / 3) = Some (of_int 7505999378950827 / 2 ^ 50)"
    by (rule to_double_at [OF _ e _ _ m]) simp_all
  then show ?thesis by (simp add: float_truediv_def)
qed

lemma float_truediv_30_3: "float_truediv 30 3 = Some 10"
  using to_double_of_int [of 10] by (simp add: float_truediv_def)

lemma float_truediv_40_5: "float_truediv 40 5 = Some 8"
  using to_double_of_int [of 8] by (simp add: float_truediv_def)


lemma to_double_defined:
  assumes "0 \<le> x" "x < 2 ^ 52"
  shows "\<exists>r. to_double x = Some r"
proof (cases "x = 0")
  case True
  then show ?thesis by (simp add: to_double_def)
next
  case False
  with assms have x0: "0 < x" by simp
  from to_double_small [OF x0 assms(2)] obtain n where
    d: "to_double x =
             (if (2::rat) ^ 1024 \<le> of_int (round_half_even (x * 2 ^ n)) / 2 ^ n then None
              else Some (of_int (round_half_even (x * 2 ^ n)) / 2 ^ n))"
    by blast
  let ?m = "round_half_even (x * 2 ^ n)"
  have "x * 2 ^ n < 2 ^ 52 * 2 ^ n" using assms(2) by (simp add: mult_strict_right_mono)
  also have "\<dots> = of_int (2 ^ 52 * 2 ^ n)" by simp
  finally have "x * 2 ^ n < of_int (2 ^ 52 * 2 ^ n)" .
  then have "x * 2 ^ n < of_int (2 ^ 52 * 2 ^ n) + 1 / 2" by linarith
  then have "?m \<le> 2 ^ 52 * 2 ^ n" by (rule round_half_even_le)
  then have "(of_int ?m :: rat) \<le> of_int (2 ^ 52 * 2 ^ n)" by (simp only: of_int_le_iff)
  then have "(of_int ?m :: rat) / 2 ^ n \<le> 2 ^ 52" by (simp add: divide_le_eq)
  moreover have "(2::rat) ^ 52 < 2 ^ 1024" by (intro power_strict_increasing) simp_all
  ultimately have "(of_int ?m :: rat) / 2 ^ n < 2 ^ 1024" by (rule le_less_trans)
  with d show ?thesis by simp
qed

lemma py_int_of_int [simp]: "py_int (of_int z) = z"
  by (simp add: py_int_def)

lemma py_int_truncates:
  "\<bar>of_int (py_int w)\<bar> \<le> \<bar>w\<bar> \<and> \<bar>w - of_int (py_int w)\<bar> < 1"
proof (cases "0 \<le> w")
  case True
  then have py: "py_int w = \<lfloor>w\<rfloor>" by (simp add: py_int_def)
  have f0: "(0::rat) \<le> of_int \<lfloor>w\<rfloor>" using True by simp
  have f1: "of_int \<lfloor>w\<rfloor> \<le> w" by (rule of_int_floor_le)
  have f2: "w < of_int \<lfloor>w\<rfloor> + 1" by linarith
  show ?thesis unfolding py using f0 f1 f2 by linarith
next
  case False
  then have py: "py_int w = \<lceil>w\<rceil>" by (simp add: py_int_def)
  have c0: "(of_int \<lceil>w\<rceil> :: rat) \<le> 0" using False by (simp add: ceiling_le_iff)
  have c1: "w \<le> of_int \<lceil>w\<rceil>" by (rule le_of_int_ceiling)
  have c2: "of_int \<lceil>w\<rceil> < w + 1" by linarith
  show ?thesis unfolding py using c0 c1 c2 False by linarith
qed

lemma py_round2_defined:
  assumes "0 \<le> w" "w < of_int t + 1" "t + 1 < 2 ^ 52"
  shows "\<exists>r. py_round2 w = Some r"
proof -
  let ?m = "round_half_even (w * 100)"
  have "of_int 0 \<le> w * 100" using assms(1) by simp
  then have m0: "0 \<le> ?m" by (rule round_half_even_ge)
  have "w * 100 < of_int ((t + 1) * 100) + 1 / 2" using assms(2) by simp
  then have "?m \<le> (t + 1) * 100" by (rule round_half_even_le)
  then have "(of_int ?m :: rat) \<le> of_int ((t + 1) * 100)" by (simp only: of_int_le_iff)
  then have "(of_int ?m :: rat) / 100 \<le> of_int (t + 1)" by simp
  moreover have "(of_int (t + 1) :: rat) < of_int (2 ^ 52)"
    using assms(3) by (simp only: of_int_less_iff)
  ultimately have "(of_int ?m :: rat) / 100 < 2 ^ 52" by simp
  moreover have "0 \<le> (of_int ?m :: rat) / 100" using m0 by simp
  ultimately show ?thesis unfolding py_round2_def by (intro to_double_defined)
qed

lemma sqlite_sum_Some: "sqlite_sum acc vs = Some t \<Longrightarrow> t = acc + sum_list vs"
proof (induction vs arbitrary: acc)
  case Nil
  then show ?case by simp
next
  case (Cons v vs)
  from Cons.prems have "sqlite_sum (acc + v) vs = Some t" by (simp split: if_splits)
  from Cons.IH [OF this] show ?case by simp
qed

lemma float_of_int_small:
  assumes "0 \<le> sc" "sc < 2 ^ 48"
  shows "float_of_int sc = Some (of_int sc)"
  unfolding float_of_int_def using assms by (intro to_double_of_int) simp_all

lemma float_mul_exact:
  assumes "0 \<le> sc" "sc < 2 ^ 48" "0 \<le> c" "c \<le> 10"
  shows "float_mul (of_int sc) (of_int c) = Some (of_int (sc * c))"
proof -
  have "sc * c \<le> sc * 10" using assms by (intro mult_left_mono) simp_all
  also have "\<dots> < 2 ^ 48 * 10" using assms(2) by simp
  also have "\<dots> < (2::int) ^ 52" by simp
  finally have "sc * c < 2 ^ 52" .
  moreover have "0 \<le> sc * c" using assms by simp
  ultimately have "to_double (of_int (sc * c)) = Some (of_int (sc * c))"
    by (rule to_double_of_int [rotated])
  then show ?thesis by (simp add: float_mul_def)
qed

lemma float_mul_inexact:
  assumes sc: "0 \<le> sc" "sc < 2 ^ 48"
    and c: "c = of_int a / 3 + 1 / (3 * 2 ^ k)" and a: "0 < a" "a \<le> 20" and k: "50 \<le> k"
  shows "\<exists>w. float_mul (of_int sc) c = Some w \<and> py_int w = (sc * a) div 3 \<and>
           0 \<le> w \<and> w < of_int ((sc * a) div 3) + 1"
proof (cases "sc = 0")
  case True
  then show ?thesis by (simp add: float_mul_def to_double_def py_int_def)
next
  case False
  with sc have pos: "1 \<le> sc" by simp
  let ?t = "(sc * a) div 3"
  let ?x = "(of_int sc :: rat) * c"
  have t1: "3 * ?t \<le> sc * a" and t2: "sc * a \<le> 3 * ?t + 2" by presburger+
  have T1: "3 * (of_int ?t :: rat) \<le> of_int (sc * a)"
    using t1 by (metis of_int_le_iff of_int_mult of_int_numeral)
  have T2: "(of_int (sc * a) :: rat) \<le> 3 * of_int ?t + 2"
    using t2 by (metis of_int_le_iff of_int_mult of_int_numeral of_int_add)
  have S1: "(1::rat) \<le> of_int sc" using pos by simp
  have "(of_int sc :: rat) < of_int (2 ^ 48)" using sc(2) by (simp only: of_int_less_iff)
  then have S2: "(of_int sc :: rat) < 2 ^ 48" by simp
  have A1: "(0::rat) < of_int a" using a by simp
  have "(of_int a :: rat) \<le> of_int 20" using a(2) by (simp only: of_int_le_iff)
  then have A2: "(of_int a :: rat) \<le> 20" by simp
  have "(2::rat) ^ 50 \<le> 2 ^ k" using k by (intro power_increasing) simp_all
  then have e1: "1 / (3 * (2::rat) ^ k) \<le> 1 / (3 * 2 ^ 50)"
    by (intro divide_left_mono) simp_all
  have e0: "0 < 1 / (3 * (2::rat) ^ k)" by simp
  define d where "d = (of_int sc :: rat) * (1 / (3 * 2 ^ k))"
  have x: "?x = of_int (sc * a) / 3 + d" by (simp add: c d_def algebra_simps)
  have d0: "0 < d" unfolding d_def using S1 e0 by (intro mult_pos_pos) simp_all
  have "d \<le> of_int sc * (1 / (3 * 2 ^ 50))"
    unfolding d_def using e1 S1 by (intro mult_left_mono) simp_all
  also have "\<dots> < 2 ^ 48 * (1 / (3 * 2 ^ 50))"
    using S2 by (intro mult_strict_right_mono) simp_all
  also have "\<dots> = (1::rat) / 12" by simp
  finally have d1: "d < 1 / 12" .
  have x0: "0 < ?x" unfolding x using d0 S1 A1 by (simp add: add_pos_pos)
  have lo: "of_int ?t \<le> ?x" unfolding x using T1 d0 by linarith
  have hi: "?x < of_int ?t + 3 / 4" unfolding x using T2 d1 by linarith
  have "of_int (sc * a) \<le> (of_int sc :: rat) * 20"
    using A2 S1 by (simp add: mult_left_mono)
  also have "\<dots> < 2 ^ 48 * 20" using S2 by simp
  finally have "(of_int (sc * a) :: rat) / 3 < 2 ^ 48 * 20 / 3" by simp
  then have x52: "?x < 2 ^ 52" unfolding x using d1 by simp
  from to_double_trunc [OF x0 x52 lo hi] show ?thesis by (simp add: float_mul_def)
qed

lemma weighted_score_trunc:
  assumes l: "map_of label_weights l = Some (weight, nq)" and sc: "0 \<le> sc" "sc < 2 ^ 48"
  shows "\<exists>wpq w. float_truediv weight nq = Some wpq \<and> float_of_int sc = Some (of_int sc) \<and>
           float_mul (of_int sc) wpq = Some w \<and> py_int w = (sc * weight) div nq \<and>
           0 \<le> w \<and> w < of_int ((sc * weight) div nq) + 1"
proof -
  note fi = float_of_int_small [OF sc]
  from l consider (l1) "weight = 10" "nq = 3" | (l2) "weight = 20" "nq = 3"
    | (l3) "weight = 30" "nq = 3" | (l4) "weight = 40" "nq = 5"
    by (auto simp: label_weights_def split: if_splits)
  then show ?thesis
  proof cases
    case l1
    have c: "(7505999378950827 / 2251799813685248 :: rat) = of_int 10 / 3 + 1 / (3 * 2 ^ 51)"
      by simp
    from float_mul_inexact [OF sc c] obtain w where
      "float_mul (of_int sc) (7505999378950827 / 2251799813685248) = Some w"
      "py_int w = (sc * 10) div 3" "0 \<le> w" "w < of_int ((sc * 10) div 3) + 1"
      by auto
    then show ?thesis
      unfolding l1 using fi float_truediv_10_3 by blast
  next
    case l2
    have c: "(7505999378950827 / 1125899906842624 :: rat) = of_int 20 / 3 + 1 / (3 * 2 ^ 50)"
      by simp
    from float_mul_inexact [OF sc c] obtain w where
      "float_mul (of_int sc) (7505999378950827 / 1125899906842624) = Some w"
      "py_int w = (sc * 20) div 3" "0 \<le> w" "w < of_int ((sc * 20) div 3) + 1"
      by auto
    then show ?thesis
      unfolding l2 using fi float_truediv_20_3 by blast
  next
    case l3
    have d: "(sc * 30) div 3 = sc * 10" by simp
    have m: "float_mul (of_int sc) 10 = Some (of_int (sc * 10))"
      using float_mul_exact [OF sc, of 10] by simp
    have p: "py_int (of_int (sc * 10) :: rat) = sc * 10" by (rule py_int_of_int)
    have n: "(0::rat) \<le> of_int (sc * 10)" using sc by simp
    have u: "(of_int (sc * 10) :: rat) < of_int (sc * 10) + 1" by simp
    show ?thesis
      unfolding l3 d using fi float_truediv_30_3 m p n u by blast
  next
    case l4
    have d: "(sc * 40) div 5 = sc * 8" by simp
    have m: "float_mul (of_int sc) 8 = Some (of_int (sc * 8))"
      using float_mul_exact [OF sc, of 8] by simp
    have p: "py_int (of_int (sc * 8) :: rat) = sc * 8" by (rule py_int_of_int)
    have n: "(0::rat) \<le> of_int (sc * 8)" using sc by simp
    have u: "(of_int (sc * 8) :: rat) < of_int (sc * 8) + 1" by simp
    show ?thesis
      unfolding l4 d using fi float_truediv_40_5 m p n u by blast
  qed
qed

section \<open>Saving a score\<close>

lemma label_weights_bound:
  assumes "map_of label_weights l = Some (weight, nq)" "0 \<le> sc"
  shows "0 \<le> (sc * weight) div nq \<and> (sc * weight) div nq \<le> sc * 10 \<and> l \<noteq> []"
proof -
  from assms(1) consider (l1) "weight = 10" "nq = 3" "l \<noteq> []"
    | (l2) "weight = 20" "nq = 3" "l \<noteq> []"
    | (l3) "weight = 30" "nq = 3" "l \<noteq> []" | (l4) "weight = 40" "nq = 5" "l \<noteq> []"
    by (auto simp: label_weights_def split: if_splits)
  then show ?thesis
  proof cases
    case l1
    then show ?thesis using assms(2) by simp presburger
  next
    case l2
    then show ?thesis using assms(2) by simp presburger
  next
    case l3
    then show ?thesis using assms(2) by simp
  next
    case l4
    then show ?thesis using assms(2) by simp
  qed
qed

lemma db_save_score_Some:
  assumes "db_save_score pid l (Some w) now_row db = Some (t, db')"
  shows "scores db' = scores db @
           [\<lparr> row_player_id = pid, row_level = l, row_score = py_int w,
              row_timestamp = now_row \<rparr>] \<and>
         (case fmlookup (players db) pid of
            None \<Rightarrow> t = 0 \<and> players db' = players db
          | Some pl \<Rightarrow>
              t = sum_list (map row_score (filter (\<lambda>r. row_player_id r = pid) (scores db))) +
                    py_int w \<and>
              players db' = fmupd pid (pl\<lparr> total_score := t \<rparr>) (players db))"
proof (cases "fmlookup (players db) pid")
  case None
  with assms show ?thesis
    by (auto simp: db_save_score_def Let_def split: if_splits)
next
  case (Some pl)
  let ?row = "\<lparr> row_player_id = pid, row_level = l, row_score = py_int w,
              row_timestamp = now_row \<rparr>"
  let ?old = "map row_score (filter (\<lambda>r. row_player_id r = pid) (scores db))"
  have f: "map row_score (filter (\<lambda>r. row_player_id r = pid) (scores db @ [?row])) =
             ?old @ [py_int w]" by simp
  from assms Some obtain s where
    s: "sqlite_sum 0 (?old @ [py_int w]) = Some s" and
    r: "t = s" "db' = db\<lparr> scores := scores db @ [?row],
                           players := fmupd pid (pl\<lparr> total_score := s \<rparr>) (players db) \<rparr>"
    unfolding db_save_score_def Let_def f
    by (auto split: if_splits option.splits)
  from sqlite_sum_Some [OF s] have "s = sum_list ?old + py_int w" by simp
  with r Some show ?thesis by simp
qed

lemma save_score_InrD:
  assumes "save_score session_id player_id lvl (Some score) now_row now reg db = (Inr ans, db')"
  shows "\<exists>pid l weight nq wpq fsc w.
           player_id = Some pid \<and> lvl = Some l \<and>
           map_of label_weights l = Some (weight, nq) \<and>
           float_truediv weight nq = Some wpq \<and> float_of_int score = Some fsc \<and>
           float_mul fsc wpq = Some w \<and>
           db_save_score pid l (Some w) now_row db = Some (answer_total_score ans, db')"
  using assms unfolding save_score_def Let_def
  by (auto split: option.splits if_splits prod.splits simp: db_save_score_def)


lemma save_score_in_range:
  assumes l: "map_of label_weights l = Some (weight, nq)" and pid: "pid \<noteq> []"
    and sc: "0 \<le> score" "score < 2 ^ 48"
  shows "\<exists>rounded.
           save_score session_id (Some pid) (Some l) (Some score) now_row now reg db =
             (let v = (score * weight) div nq;
                  rows = scores db @
                           [\<lparr> row_player_id = pid, row_level = l, row_score = v,
                              row_timestamp = now_row \<rparr>];
                  earlier = map row_score (filter (\<lambda>r. row_player_id r = pid) (scores db));
                  start = (case find_session session_id reg of
                             None \<Rightarrow> None
                           | Some (sid, s) \<Rightarrow> start_time s)
              in case fmlookup (players db) pid of
                   None \<Rightarrow>
                     (Inr \<lparr> answer_total_score = 0, answer_weighted_score = rounded,
                            answer_timestamp = now, answer_start = start \<rparr>,
                      db\<lparr> scores := rows \<rparr>)
                 | Some pl \<Rightarrow>
                     if sqlite_sum 0 (earlier @ [v]) = None then (Inl FailedToSaveScore, db)
                     else
                       (Inr \<lparr> answer_total_score = sum_list earlier + v,
                              answer_weighted_score = rounded,
                              answer_timestamp = now, answer_start = start \<rparr>,
                        db\<lparr> scores := rows,
                            players := fmupd pid (pl\<lparr> total_score := sum_list earlier + v \<rparr>)
                                         (players db) \<rparr>))"
proof -
  let ?v = "(score * weight) div nq"
  let ?row = "\<lparr> row_player_id = pid, row_level = l, row_score = ?v,
                row_timestamp = now_row \<rparr>"
  let ?earlier = "map row_score (filter (\<lambda>r. row_player_id r = pid) (scores db))"
  from weighted_score_trunc [OF l sc] obtain wpq w where
    wpq: "float_truediv weight nq = Some wpq" and
    fsc: "float_of_int score = Some (of_int score)" and
    w: "float_mul (of_int score) wpq = Some w" and
    v: "py_int w = ?v" and w0: "0 \<le> w" and w1: "w < of_int ?v + 1"
    by blast
  from label_weights_bound [OF l sc(1)] have
    v0: "0 \<le> ?v" and v10: "?v \<le> score * 10" and l0: "l \<noteq> []" by simp_all
  have "score * 10 < 2 ^ 48 * 10" using sc(2) by simp
  also have "\<dots> < (2::int) ^ 52 - 1" by simp
  finally have v52: "?v + 1 < 2 ^ 52" using v10 by simp
  from py_round2_defined [OF w0 w1 v52] obtain rounded where
    rounded: "py_round2 w = Some rounded" by blast
  have "?v < 2 ^ 52" using v52 by simp
  also have "\<dots> < (2::int) ^ 63" by simp
  finally have range: "sqlite_integer (py_int w)" using v0 by (simp add: sqlite_integer_def v)
  have f: "map row_score (filter (\<lambda>r. row_player_id r = pid) (scores db @ [?row])) =
             ?earlier @ [?v]" by simp
  have db_save:
    "db_save_score pid l (Some w) now_row db =
       (case fmlookup (players db) pid of
          None \<Rightarrow> Some (0, db\<lparr> scores := scores db @ [?row] \<rparr>)
        | Some pl \<Rightarrow>
            (case sqlite_sum 0 (?earlier @ [?v]) of
               None \<Rightarrow> None
             | Some t \<Rightarrow>
                 Some (t, db\<lparr> scores := scores db @ [?row],
                              players := fmupd pid (pl\<lparr> total_score := t \<rparr>) (players db) \<rparr>)))"
    unfolding db_save_score_def Let_def using range
    by (simp add: v split: option.splits)
  have total: "t = sum_list ?earlier + ?v" if "sqlite_sum 0 (?earlier @ [?v]) = Some t" for t
    using sqlite_sum_Some [OF that] by simp
  have "save_score session_id (Some pid) (Some l) (Some score) now_row now reg db =
          (let start = (case find_session session_id reg of
                          None \<Rightarrow> None
                        | Some (sid, s) \<Rightarrow> start_time s)
           in case db_save_score pid l (Some w) now_row db of
                None \<Rightarrow> (Inl FailedToSaveScore, db)
              | Some (t, db') \<Rightarrow>
                  (Inr \<lparr> answer_total_score = t, answer_weighted_score = rounded,
                         answer_timestamp = now, answer_start = start \<rparr>, db'))"
    unfolding save_score_def Let_def using pid l0 l wpq fsc w rounded
    by (simp split: option.splits prod.splits)
  also have "\<dots> =
             (let v = ?v;
                  rows = scores db @ [?row];
                  earlier = ?earlier;
                  start = (case find_session session_id reg of
                             None \<Rightarrow> None
                           | Some (sid, s) \<Rightarrow> start_time s)
              in case fmlookup (players db) pid of
                   None \<Rightarrow>
                     (Inr \<lparr> answer_total_score = 0, answer_weighted_score = rounded,
                            answer_timestamp = now, answer_start = start \<rparr>,
                      db\<lparr> scores := rows \<rparr>)
                 | Some pl \<Rightarrow>
                     if sqlite_sum 0 (earlier @ [v]) = None then (Inl FailedToSaveScore, db)
                     else
                       (Inr \<lparr> answer_total_score = sum_list earlier + v,
                              answer_weighted_score = rounded,
                              answer_timestamp = now, answer_start = start \<rparr>,
                        db\<lparr> scores := rows,
                            players := fmupd pid (pl\<lparr> total_score := sum_list earlier + v \<rparr>)
                                         (players db) \<rparr>))"
    unfolding db_save Let_def
    by (auto split: option.splits dest: total)
  finally show ?thesis unfolding Let_def by blast
qed

end
